theory Spec2Isabelle
  imports Complex_Main "HOL-Library.Word" "HOL-Library.Sublist" "HOL-Library.Log_Nat"
begin

unbundle bit_operations_syntax

section \<open>Typing pattern store (routes/events.js, step 4 of the ingest handler)\<close>

text \<open>
  Arrays are lists; a number is held as the real it denotes.
  \<open>Array.prototype.slice(-n)\<close> keeps the last \<open>n\<close> elements, or the whole array when it
  is shorter than \<open>n\<close>.
\<close>

record typingSample =
  ts_timestamp :: real
  ts_interval :: real

definition sliceLast :: "nat \<Rightarrow> 'a list \<Rightarrow> 'a list" where
  "sliceLast n xs = drop (length xs - n) xs"

text \<open>
  \<open>patternDoc.intervals.push(...intervals); if (patternDoc.intervals.length > 10000)
  patternDoc.intervals = patternDoc.intervals.slice(-8000)\<close>
\<close>

definition appendIntervals :: "real list \<Rightarrow> real list \<Rightarrow> real list" where
  "appendIntervals stored new =
     (let pushed = stored @ new
      in if length pushed > 10000 then sliceLast 8000 pushed else pushed)"

text \<open>
  The stored pattern document of a participant is \<open>None\<close> before the first update
  (\<open>TypingPattern.findOne\<close> returns null and a document with \<open>intervals: []\<close> is created).
  The handler touches the document only when the submitted batch is not empty.
\<close>

definition storedIntervals :: "real list option \<Rightarrow> real list" where
  "storedIntervals doc = (case doc of None \<Rightarrow> [] | Some xs \<Rightarrow> xs)"

definition updateTypingPattern :: "real list option \<Rightarrow> typingSample list \<Rightarrow> real list option" where
  "updateTypingPattern doc typingPattern =
     (if length typingPattern > 0
      then Some (appendIntervals (storedIntervals doc) (map ts_interval typingPattern))
      else doc)"


section \<open>Numbers (IEEE 754 double precision)\<close>

text \<open>
  A JavaScript number is a double. The model holds a number as the real it denotes and
  rounds the exact result of every multiplication, division and addition of the scoring
  code to the nearest double, a tie going to the even significand: 53 significant bits, and
  the fixed spacing \<open>2^-1074\<close> of the subnormal numbers. The scores, counters and
  timestamps of this program stay far below \<open>2^1024\<close>, so the overflow to Infinity is not
  modelled. A decimal literal of the source such as \<open>0.35\<close> denotes \<open>dbl 0.35\<close>.
\<close>

definition pow2 :: "int \<Rightarrow> real" where
  "pow2 e = (if e \<ge> 0 then 2 ^ nat e else 1 / 2 ^ nat (- e))"

text \<open>The binary exponent of a number other than 0: \<open>2^e \<le> |x| < 2^(e+1)\<close>.\<close>

definition expo :: "real \<Rightarrow> int" where
  "expo x = (if \<bar>x\<bar> \<ge> 1 then bitlen \<lfloor>\<bar>x\<bar>\<rfloor> - 1 else - bitlen (\<lceil>1 / \<bar>x\<bar>\<rceil> - 1))"

definition roundHalfEven :: "real \<Rightarrow> int" where
  "roundHalfEven y =
     (let f = \<lfloor>y\<rfloor>
      in if y - of_int f < 1/2 then f
         else if y - of_int f > 1/2 then f + 1
         else if even f then f else f + 1)"

text \<open>The double nearest to a real.\<close>

definition dbl :: "real \<Rightarrow> real" where
  "dbl x =
     (if x = 0 then 0
      else (let e = max (expo x) (- 1022);
                u = pow2 (e - 52)
            in of_int (roundHalfEven (x / u)) * u))"

text \<open>The operators \<open>+\<close>, \<open>*\<close> and \<open>/\<close> on doubles.\<close>

definition dadd :: "real \<Rightarrow> real \<Rightarrow> real" where
  "dadd x y = dbl (x + y)"

definition dmul :: "real \<Rightarrow> real \<Rightarrow> real" where
  "dmul x y = dbl (x * y)"

definition ddiv :: "real \<Rightarrow> real \<Rightarrow> real" where
  "ddiv x y = dbl (x / y)"

text \<open>
  \<open>Math.round\<close> returns the nearest integer, a tie going towards plus infinity; the result
  is exact.
\<close>

definition jsRound :: "real \<Rightarrow> real" where
  "jsRound x = of_int \<lfloor>x + 1/2\<rfloor>"

text \<open>The idiom \<open>Math.round(x * 1000) / 1000\<close>.\<close>

definition jsRound3 :: "real \<Rightarrow> real" where
  "jsRound3 x = ddiv (jsRound (dmul x 1000)) 1000"

text \<open>
  Rounding to three decimals in exact arithmetic, as in the formulas of the specification.
\<close>

definition round3 :: "real \<Rightarrow> real" where
  "round3 x = jsRound (x * 1000) / 1000"

section \<open>Commit timing analysis (utils/commitAnalysis.js)\<close>

text \<open>
  A commit's \<open>date\<close> is held as the value of \<open>new Date(date).getTime()\<close>, milliseconds since
  the epoch.
\<close>

record commit =
  c_sha :: string
  c_message :: string
  c_date :: int
  c_additions :: int
  c_deletions :: int
  c_filesChanged :: int

record idleBurst =
  idleStartedAt :: int
  burstStartedAt :: int
  idleDurationMin :: real
  burstCommitCount :: nat

record timingResult =
  hourlyDistribution :: "nat list"
  idleBursts :: "idleBurst list"
  totalGapMs :: int

definition BURST_INTERVAL_MS :: int where
  "BURST_INTERVAL_MS = 5 * 60 * 1000"

definition LONG_IDLE_MS :: int where
  "LONG_IDLE_MS = 30 * 60 * 1000"

definition getUTCHours :: "int \<Rightarrow> nat" where
  "getUTCHours t = nat ((t div 3600000) mod 24)"

text \<open>
  The look-ahead loop \<open>for (let j = i + 1; j < commits.length; j++)\<close>: it counts up while
  the gap before commit \<open>j\<close> is below the burst interval and breaks at the first other gap.
\<close>

function lookAhead :: "commit list \<Rightarrow> nat \<Rightarrow> nat \<Rightarrow> nat" where
  "lookAhead commits j burstCount =
     (if j < length commits
      then (let nextGap = c_date (commits ! j) - c_date (commits ! (j - 1))
            in if nextGap < BURST_INTERVAL_MS
               then lookAhead commits (j + 1) (burstCount + 1)
               else burstCount)
      else burstCount)"
  by pat_completeness auto
termination
  by (relation "measure (\<lambda>(commits, j, burstCount). length commits - j)") auto

declare lookAhead.simps [simp del]

text \<open>One iteration of the outer loop \<open>for (let i = 0; i < commits.length; i++)\<close>.\<close>

definition timingStep :: "commit list \<Rightarrow> timingResult \<Rightarrow> nat \<Rightarrow> timingResult" where
  "timingStep commits acc i =
     (let h = getUTCHours (c_date (commits ! i));
          acc = acc\<lparr>hourlyDistribution :=
                  (hourlyDistribution acc)[h := hourlyDistribution acc ! h + 1]\<rparr>
      in if i > 0
         then (let gap = c_date (commits ! i) - c_date (commits ! (i - 1));
                   acc = acc\<lparr>totalGapMs := totalGapMs acc + gap\<rparr>
               in if gap > LONG_IDLE_MS
                  then (let burstCount = lookAhead commits (i + 1) 1
                        in if burstCount \<ge> 3
                           then acc\<lparr>idleBursts := idleBursts acc @
                                  [\<lparr>idleStartedAt = c_date (commits ! (i - 1)),
                                    burstStartedAt = c_date (commits ! i),
                                    idleDurationMin = jsRound (ddiv (real_of_int gap) 60000),
                                    burstCommitCount = burstCount\<rparr>]\<rparr>
                           else acc)
                  else acc)
         else acc)"

definition emptyTiming :: timingResult where
  "emptyTiming = \<lparr>hourlyDistribution = replicate 24 0, idleBursts = [], totalGapMs = 0\<rparr>"

definition analyzeTimingDistribution :: "commit list \<Rightarrow> timingResult" where
  "analyzeTimingDistribution commits =
     foldl (timingStep commits) emptyTiming [0..<length commits]"

text \<open>
  The idle-burst rule in the words of the specification. The gap before commit \<open>i\<close> is the
  time since its predecessor. The followers of commit \<open>i\<close> are the commits after it for as
  long as each is less than five minutes after its predecessor: the run that follows the
  gap, ended by the first gap of five minutes or more.
\<close>

definition gapBefore :: "commit list \<Rightarrow> nat \<Rightarrow> int" where
  "gapBefore commits i = c_date (commits ! i) - c_date (commits ! (i - 1))"

definition spec_followers :: "commit list \<Rightarrow> nat \<Rightarrow> nat" where
  "spec_followers commits i =
     length (takeWhile (\<lambda>j. gapBefore commits j < 5 * 60 * 1000) [i + 1..<length commits])"

text \<open>
  The rule as the specification states it: the gap is followed by a run of at least three
  commits, each less than five minutes after its predecessor, and the episode carries the
  length of that run.
\<close>

definition claimed_isIdleBurst :: "commit list \<Rightarrow> nat \<Rightarrow> bool" where
  "claimed_isIdleBurst commits i =
     (gapBefore commits i > 30 * 60 * 1000 \<and> spec_followers commits i \<ge> 3)"

definition claimed_episode :: "commit list \<Rightarrow> nat \<Rightarrow> idleBurst" where
  "claimed_episode commits i =
     \<lparr>idleStartedAt = c_date (commits ! (i - 1)),
      burstStartedAt = c_date (commits ! i),
      idleDurationMin = jsRound (ddiv (real_of_int (gapBefore commits i)) 60000),
      burstCommitCount = spec_followers commits i\<rparr>"

text \<open>
  The rule with the gap-ending commit counted as the first commit of the burst: two
  followers are enough, and the episode carries one more than the number of followers.
\<close>

definition spec_isIdleBurst :: "commit list \<Rightarrow> nat \<Rightarrow> bool" where
  "spec_isIdleBurst commits i =
     (gapBefore commits i > 30 * 60 * 1000 \<and> spec_followers commits i \<ge> 2)"

definition spec_episode :: "commit list \<Rightarrow> nat \<Rightarrow> idleBurst" where
  "spec_episode commits i =
     \<lparr>idleStartedAt = c_date (commits ! (i - 1)),
      burstStartedAt = c_date (commits ! i),
      idleDurationMin = jsRound (ddiv (real_of_int (gapBefore commits i)) 60000),
      burstCommitCount = spec_followers commits i + 1\<rparr>"

definition commitAt :: "int \<Rightarrow> commit" where
  "commitAt minutes =
     \<lparr>c_sha = ''c'', c_message = ''wip'', c_date = minutes * 60000,
      c_additions = 1, c_deletions = 0, c_filesChanged = 1\<rparr>"

section \<open>Source analysis record (models/GitHubAnalysis.js)\<close>

record similarityMatch =
  otherParticipantId :: string
  otherRepo :: string
  sm_file1 :: string
  sm_file2 :: string
  sm_similarity :: real
  sm_identicalContent :: bool

record githubAnalysis =
  participantId :: string
  repoOwner :: string
  repoName :: string
  timingAnalysis :: timingResult
  avgCommitSuspicionScore :: real
  similarityMatches :: "similarityMatch list"
  highestSimilarity :: real
  githubSuspicionScore :: real

text \<open>
  \<open>githubAnalysisSchema.methods.recalculateSuspicion\<close>: the three weighted signals are
  added to \<open>score\<close> one after the other, and the rounded sum is clamped.
\<close>

definition recalculateSuspicion :: "githubAnalysis \<Rightarrow> githubAnalysis" where
  "recalculateSuspicion a =
     (let score = 0;
          score = (if avgCommitSuspicionScore a > 0
                   then dadd score (dmul (avgCommitSuspicionScore a) (dbl 0.35)) else score);
          burstCount = length (idleBursts (timingAnalysis a));
          score = (if burstCount > 0
                   then dadd score (min (dmul (real burstCount) (dbl 0.1)) (dbl 0.25))
                   else score);
          score = (if highestSimilarity a > dbl 0.8 then dadd score (dbl 0.4)
                   else if highestSimilarity a > dbl 0.5
                   then dadd score (dmul (highestSimilarity a) (dbl 0.3))
                   else score)
      in a\<lparr>githubSuspicionScore := min (jsRound3 score) 1\<rparr>)"

text \<open>
  The aggregation formula as the specification words it, in exact arithmetic: the three
  contributions added, the sum clamped to 1 and rounded to three decimals.
\<close>

definition spec_plagiarismContribution :: "real \<Rightarrow> real" where
  "spec_plagiarismContribution h =
     (if h > 0.8 then 0.4 else if h > 0.5 then 0.3 * h else 0)"

definition spec_sourceScore :: "real \<Rightarrow> nat \<Rightarrow> real \<Rightarrow> real" where
  "spec_sourceScore avgCommitScore n h =
     round3 (min 1 (0.35 * avgCommitScore + min 0.25 (0.1 * real n)
                    + spec_plagiarismContribution h))"

text \<open>
  The same formula with every constant, product, sum and quotient a double, and with the
  plagiarism contribution as a parameter.
\<close>

definition dbl_sourceScoreWith :: "real \<Rightarrow> nat \<Rightarrow> real \<Rightarrow> real" where
  "dbl_sourceScoreWith avgCommitScore n contribution =
     jsRound3 (min 1 (dadd (dadd (dmul (dbl 0.35) avgCommitScore)
                                 (min (dbl 0.25) (dmul (dbl 0.1) (real n))))
                           contribution))"

definition dbl_plagiarismContribution :: "real \<Rightarrow> real" where
  "dbl_plagiarismContribution h =
     (if h > dbl 0.8 then dbl 0.4 else if h > dbl 0.5 then dmul (dbl 0.3) h else 0)"

definition dbl_sourceScore :: "real \<Rightarrow> nat \<Rightarrow> real \<Rightarrow> real" where
  "dbl_sourceScore avgCommitScore n h =
     dbl_sourceScoreWith avgCommitScore n (dbl_plagiarismContribution h)"

text \<open>A record without commit suspicion and without idle bursts, used in examples.\<close>

definition exampleAnalysis :: "real \<Rightarrow> githubAnalysis" where
  "exampleAnalysis h =
     \<lparr>participantId = ''p1'', repoOwner = ''alice'', repoName = ''solutions'',
      timingAnalysis = emptyTiming, avgCommitSuspicionScore = 0, similarityMatches = [],
      highestSimilarity = h, githubSuspicionScore = 0\<rparr>"

section \<open>Participant counters and the aggregate participant score (utils/suspicionCalculator.js)\<close>

record stats =
  pasteCount :: real
  pasteCharsTotal :: real
  typingAnomalies :: real
  windowBlurCount :: real
  windowBlurTotalMs :: real
  clipboardChanges :: real
  filesCreated :: real
  filesDeleted :: real

definition WARNING_BLUR_TOTAL_MS :: real where
  "WARNING_BLUR_TOTAL_MS = 600000"

text \<open>
  \<open>calculateParticipantSuspicion\<close>. The library function \<open>Math.log10\<close>, whose accuracy the
  language standard leaves to the implementation, is the parameter \<open>log10\<close>.
\<close>

definition calculateParticipantSuspicion :: "(real \<Rightarrow> real) \<Rightarrow> stats \<Rightarrow> real" where
  "calculateParticipantSuspicion log10 s =
     (let score = 0;
          score = (if pasteCount s > 0
                   then dadd score (min (dmul (log10 (dadd (pasteCount s) 1)) (dbl 0.18)) (dbl 0.5))
                   else score);
          score = (if pasteCharsTotal s > 1000
                   then dadd score (min (ddiv (pasteCharsTotal s) 10000) (dbl 0.3)) else score);
          score = (if typingAnomalies s > 5
                   then dadd score (min (ddiv (typingAnomalies s) 100) (dbl 0.2)) else score);
          score = (if windowBlurTotalMs s > WARNING_BLUR_TOTAL_MS
                   then dadd score (dbl 0.15) else score);
          score = (if clipboardChanges s > 20
                   then dadd score (min (ddiv (clipboardChanges s) 200) (dbl 0.15)) else score)
      in min (jsRound3 score) 1)"

text \<open>The participant score as the specification words it, in exact arithmetic.\<close>

definition spec_participantScore :: "stats \<Rightarrow> real" where
  "spec_participantScore s =
     round3 (min 1
       ((if pasteCount s > 0 then min 0.5 (0.18 * log 10 (pasteCount s + 1)) else 0)
        + (if pasteCharsTotal s > 1000 then min 0.3 (pasteCharsTotal s / 10000) else 0)
        + (if typingAnomalies s > 5 then min 0.2 (typingAnomalies s / 100) else 0)
        + (if windowBlurTotalMs s > 600000 then 0.15 else 0)
        + (if clipboardChanges s > 20 then min 0.15 (clipboardChanges s / 200) else 0)))"

text \<open>
  The same guarded sum with every constant, product, quotient and sum a double, added from
  left to right.
\<close>

definition dbl_participantScore :: "(real \<Rightarrow> real) \<Rightarrow> stats \<Rightarrow> real" where
  "dbl_participantScore log10 s =
     jsRound3 (min 1
       (dadd (dadd (dadd (dadd
          (if pasteCount s > 0
           then min (dbl 0.5) (dmul (dbl 0.18) (log10 (dadd (pasteCount s) 1))) else 0)
          (if pasteCharsTotal s > 1000 then min (dbl 0.3) (ddiv (pasteCharsTotal s) 10000) else 0))
          (if typingAnomalies s > 5 then min (dbl 0.2) (ddiv (typingAnomalies s) 100) else 0))
          (if windowBlurTotalMs s > 600000 then dbl 0.15 else 0))
          (if clipboardChanges s > 20 then min (dbl 0.15) (ddiv (clipboardChanges s) 200) else 0)))"

definition emptyStats :: stats where
  "emptyStats =
     \<lparr>pasteCount = 0, pasteCharsTotal = 0, typingAnomalies = 0, windowBlurCount = 0,
      windowBlurTotalMs = 0, clipboardChanges = 0, filesCreated = 0, filesDeleted = 0\<rparr>"

text \<open>
  An instance of the logarithm for the examples: the double that \<open>Math.log10(2)\<close> returns,
  0.3010299956639812, at 2.
\<close>

definition sampleLog10 :: "real \<Rightarrow> real" where
  "sampleLog10 x = (if x = 2 then 5422874305198591 / 18014398509481984 else 0)"

section \<open>Counter updates of the ingest handler (routes/events.js, step 3)\<close>

datatype eventType = Paste | Typing | FileChange | FileOperation | WindowBlur | Clipboard

text \<open>
  The fields of \<open>event.data\<close> that the handler reads; each is optional in the validation
  schema, so an absent field is \<open>None\<close>.
\<close>

record eventData =
  d_length :: "real option"
  d_interval :: "real option"
  d_focused :: "bool option"
  d_anomaly :: "string option"
  d_operation :: "string option"
  d_unfocusedDurationMs :: "real option"

record event =
  e_type :: eventType
  e_timestamp :: real
  e_data :: eventData

text \<open>\<open>x || 0\<close> on an optional number, and the truth value of an optional number or string.\<close>

definition numOrZero :: "real option \<Rightarrow> real" where
  "numOrZero x = (case x of None \<Rightarrow> 0 | Some v \<Rightarrow> v)"

definition truthyNum :: "real option \<Rightarrow> bool" where
  "truthyNum x = (case x of None \<Rightarrow> False | Some v \<Rightarrow> v \<noteq> 0)"

definition truthyStr :: "string option \<Rightarrow> bool" where
  "truthyStr x = (case x of None \<Rightarrow> False | Some v \<Rightarrow> v \<noteq> [])"

text \<open>
  The \<open>switch (event.type)\<close> that updates \<open>participantDoc.stats\<close>. The counts, and the
  lengths and durations that the editor agent reports, are whole numbers; sums of whole
  numbers below \<open>2^53\<close> are exact in double arithmetic, so the additions are written exactly.
\<close>

definition updateStats :: "stats \<Rightarrow> event \<Rightarrow> stats" where
  "updateStats st ev =
     (let d = e_data ev in
      case e_type ev of
        Paste \<Rightarrow>
          st\<lparr>pasteCount := pasteCount st + 1,
             pasteCharsTotal := pasteCharsTotal st + numOrZero (d_length d)\<rparr>
      | Typing \<Rightarrow>
          (if truthyStr (d_anomaly d)
           then st\<lparr>typingAnomalies := typingAnomalies st + 1\<rparr> else st)
      | WindowBlur \<Rightarrow>
          (let st = (if d_focused d = Some False
                     then st\<lparr>windowBlurCount := windowBlurCount st + 1\<rparr> else st)
           in if truthyNum (d_unfocusedDurationMs d)
              then st\<lparr>windowBlurTotalMs :=
                        windowBlurTotalMs st + the (d_unfocusedDurationMs d)\<rparr>
              else st)
      | Clipboard \<Rightarrow> st\<lparr>clipboardChanges := clipboardChanges st + 1\<rparr>
      | FileOperation \<Rightarrow>
          (if d_operation d = Some ''create''
           then st\<lparr>filesCreated := filesCreated st + 1\<rparr>
           else if d_operation d = Some ''delete''
           then st\<lparr>filesDeleted := filesDeleted st + 1\<rparr>
           else st)
      | FileChange \<Rightarrow> st)"

text \<open>The loop \<open>for (const event of events)\<close>, and the score recomputed after it.\<close>

definition applyEvents :: "stats \<Rightarrow> event list \<Rightarrow> stats" where
  "applyEvents st events = foldl updateStats st events"

definition ingestScore :: "(real \<Rightarrow> real) \<Rightarrow> stats \<Rightarrow> event list \<Rightarrow> real" where
  "ingestScore log10 st events = calculateParticipantSuspicion log10 (applyEvents st events)"



section \<open>Fingerprinting (utils/similarity.js)\<close>

text \<open>
  Source text is a list of code units; the model covers the code units below 256
  (\<^typ>\<open>char\<close>), on which \<open>String.prototype.toLowerCase\<close>, the class \<open>\s\<close> and the line
  terminators are given by the tables below.
\<close>

definition DEFAULT_K :: nat where
  "DEFAULT_K = 25"

definition DEFAULT_W :: nat where
  "DEFAULT_W = 4"

text \<open>The line terminators, which \<open>.\<close> does not match and before which \<open>$\<close> (flag m) matches.\<close>

definition isLineTerminator :: "char \<Rightarrow> bool" where
  "isLineTerminator c = (c = CHR 0x0A \<or> c = CHR 0x0D)"

text \<open>The class \<open>\s\<close>, also what \<open>trim\<close> removes: tab, LF, VT, FF, CR, space, no-break space.\<close>

definition isWhiteSpace :: "char \<Rightarrow> bool" where
  "isWhiteSpace c =
     (c = CHR 0x09 \<or> c = CHR 0x0A \<or> c = CHR 0x0B \<or> c = CHR 0x0C \<or> c = CHR 0x0D \<or>
      c = CHR 0x20 \<or> c = CHR 0xA0)"

text \<open>\<open>.replace(/\/\/.*$/gm, "")\<close>: from each \<open>//\<close> up to, not including, the line terminator.\<close>

function (sequential) stripLineComments :: "string \<Rightarrow> string" where
  "stripLineComments (c # d # cs) =
     (if c = CHR ''/'' \<and> d = CHR ''/''
      then stripLineComments (dropWhile (\<lambda>x. \<not> isLineTerminator x) cs)
      else c # stripLineComments (d # cs))"
| "stripLineComments cs = cs"
  by pat_completeness auto
termination
  by (relation "measure length") (auto simp add: less_Suc_eq_le le_SucI length_dropWhile_le)

text \<open>
  \<open>.replace(/\/\*[\s\S]*?\*\//g, "")\<close>: at each \<open>/*\<close> the lazy quantifier stops at the first
  \<open>*/\<close> that follows; without one there is no match at this position and the scan moves on.
  \<open>findClose\<close> returns the text after that first \<open>*/\<close>.
\<close>

fun findClose :: "string \<Rightarrow> string option" where
  "findClose (c # d # cs) =
     (if c = CHR ''*'' \<and> d = CHR ''/'' then Some cs else findClose (d # cs))"
| "findClose cs = None"

function stripBlockComments :: "string \<Rightarrow> string" where
  "stripBlockComments (c # d # cs) =
     (if c = CHR ''/'' \<and> d = CHR ''*''
      then (case findClose cs of
              Some rest \<Rightarrow> stripBlockComments rest
            | None \<Rightarrow> c # stripBlockComments (d # cs))
      else c # stripBlockComments (d # cs))"
| "stripBlockComments [c] = [c]"
| "stripBlockComments [] = []"
  by pat_completeness auto
termination
proof (relation "measure length")
  fix c d :: char and cs rest :: string
  have shorter: "findClose xs = Some r \<Longrightarrow> length r < length xs" for xs r
    by (induction xs rule: findClose.induct) (auto split: if_splits)
  assume "findClose cs = Some rest"
  then show "(rest, c # d # cs) \<in> measure length"
    using shorter [of cs rest] by simp
qed auto

text \<open>\<open>.replace(/#.*$/gm, "")\<close>\<close>

function (sequential) stripHashComments :: "string \<Rightarrow> string" where
  "stripHashComments (c # cs) =
     (if c = CHR ''#''
      then stripHashComments (dropWhile (\<lambda>x. \<not> isLineTerminator x) cs)
      else c # stripHashComments cs)"
| "stripHashComments [] = []"
  by pat_completeness auto
termination
  by (relation "measure length") (auto simp add: less_Suc_eq_le le_SucI length_dropWhile_le)

text \<open>\<open>.replace(/\s+/g, " ")\<close>\<close>

function (sequential) collapseWhitespace :: "string \<Rightarrow> string" where
  "collapseWhitespace (c # cs) =
     (if isWhiteSpace c
      then CHR '' '' # collapseWhitespace (dropWhile isWhiteSpace cs)
      else c # collapseWhitespace cs)"
| "collapseWhitespace [] = []"
  by pat_completeness auto
termination
  by (relation "measure length") (auto simp add: less_Suc_eq_le le_SucI length_dropWhile_le)

text \<open>\<open>toLowerCase\<close> below 256: A to Z, and the upper-case letters of 0xC0 to 0xDE except the
  multiplication sign 0xD7, move up by 32.\<close>

definition lowerChar :: "char \<Rightarrow> char" where
  "lowerChar c =
     (let n = (of_char c :: nat)
      in if (65 \<le> n \<and> n \<le> 90) \<or> (192 \<le> n \<and> n \<le> 222 \<and> n \<noteq> 215)
         then char_of (n + 32) else c)"

definition toLowerCase :: "string \<Rightarrow> string" where
  "toLowerCase s = map lowerChar s"

definition trim :: "string \<Rightarrow> string" where
  "trim s = rev (dropWhile isWhiteSpace (rev (dropWhile isWhiteSpace s)))"

definition normalise :: "string \<Rightarrow> string" where
  "normalise code =
     trim (toLowerCase (collapseWhitespace (stripHashComments
       (stripBlockComments (stripLineComments code)))))"

text \<open>
  \<open>simpleHash\<close>. \<open>hash ^= c\<close> is a signed 32-bit exclusive or. \<open>hash * 0x01000193\<close> is a
  multiplication of doubles: the exact product, which can need up to 56 bits, is rounded to
  53 significant bits (ties to even) before \<open>>>> 0\<close> reduces it modulo \<open>2^32\<close>.
\<close>

definition roundToDouble :: "int \<Rightarrow> int" where
  "roundToDouble n =
     (let a = \<bar>n\<bar>
      in if a < 2 ^ 53 then n
         else (let e = nat (bitlen a) - 53;
                   q = a div 2 ^ e;
                   r = a mod 2 ^ e;
                   half = 2 ^ (e - 1);
                   q' = (if r > half \<or> (r = half \<and> odd q) then q + 1 else q)
               in sgn n * q' * 2 ^ e))"

definition hashStep :: "int \<Rightarrow> char \<Rightarrow> int" where
  "hashStep hash c =
     (let x = sint ((word_of_int hash :: 32 word) XOR word_of_nat (of_char c))
      in roundToDouble (x * 0x01000193) mod 2 ^ 32)"

definition simpleHash :: "string \<Rightarrow> int" where
  "simpleHash str = foldl hashStep 0x811c9dc5 str"

definition kgramHashes :: "string \<Rightarrow> nat \<Rightarrow> int list" where
  "kgramHashes text k =
     (if length text < k then [simpleHash text]
      else map (\<lambda>i. simpleHash (take k (drop i text))) [0..<length text - k + 1])"

text \<open>
  A \<open>Set\<close> of numbers is a duplicate-free list in insertion order. \<open>windowMin\<close> is the inner
  loop of \<open>winnow\<close> over a non-empty window (\<open>w \<ge> 1\<close>, as with the default 4), and \<open>mathMin\<close>
  is \<open>Math.min(...hashes)\<close> on a non-empty array.
\<close>

definition setAdd :: "'a \<Rightarrow> 'a list \<Rightarrow> 'a list" where
  "setAdd x s = (if x \<in> set s then s else s @ [x])"

fun windowMin :: "int list \<Rightarrow> int" where
  "windowMin (x # xs) = foldl (\<lambda>minVal y. if y < minVal then y else minVal) x xs"

fun mathMin :: "int list \<Rightarrow> int" where
  "mathMin (x # xs) = foldl min x xs"

definition winnowStep :: "int list \<Rightarrow> nat \<Rightarrow> int list \<times> int \<Rightarrow> nat \<Rightarrow> int list \<times> int" where
  "winnowStep hashes w st i =
     (let fingerprints = fst st; prevMin = snd st;
          window = take w (drop i hashes);
          minVal = windowMin window
      in if minVal \<noteq> prevMin then (setAdd minVal fingerprints, minVal)
         else (fingerprints, prevMin))"

definition winnow :: "int list \<Rightarrow> nat \<Rightarrow> int list" where
  "winnow hashes w =
     (if length hashes = 0 then []
      else if length hashes \<le> w then setAdd (mathMin hashes) []
      else fst (foldl (winnowStep hashes w) ([], - 1) [0..<length hashes - w + 1]))"

text \<open>The digest function (SHA-256 of the \<open>crypto\<close> library) is a parameter of the model.\<close>

record 'h fingerprintResult =
  fingerprints :: "int list"
  fp_hash :: 'h
  normLength :: nat

definition fingerprint :: "(string \<Rightarrow> 'h) \<Rightarrow> string \<Rightarrow> nat \<Rightarrow> nat \<Rightarrow> 'h fingerprintResult" where
  "fingerprint sha256 code k w =
     (let norm = normalise code;
          hashes = kgramHashes norm k;
          fps = winnow hashes w
      in \<lparr>fingerprints = fps, fp_hash = sha256 norm, normLength = length norm\<rparr>)"

definition jaccardSimilarity :: "int list \<Rightarrow> int list \<Rightarrow> real" where
  "jaccardSimilarity a b =
     (if length a = 0 \<and> length b = 0 then 1
      else if length a = 0 \<or> length b = 0 then 0
      else (let intersection = length (filter (\<lambda>v. v \<in> set b) a);
                union = length a + length b - intersection
            in if union = 0 then 0 else ddiv (real intersection) (real union)))"

record 'h comparison =
  cmp_similarity :: real
  cmp_hash1 :: 'h
  cmp_hash2 :: 'h
  cmp_identicalContent :: bool

definition compareCode :: "(string \<Rightarrow> 'h) \<Rightarrow> string \<Rightarrow> string \<Rightarrow> 'h comparison" where
  "compareCode sha256 code1 code2 =
     (let fp1 = fingerprint sha256 code1 DEFAULT_K DEFAULT_W;
          fp2 = fingerprint sha256 code2 DEFAULT_K DEFAULT_W;
          identicalContent = (fp_hash fp1 = fp_hash fp2);
          similarity = (if identicalContent then 1.0
                        else jsRound3 (jaccardSimilarity (fingerprints fp1) (fingerprints fp2)))
      in \<lparr>cmp_similarity = similarity, cmp_hash1 = fp_hash fp1, cmp_hash2 = fp_hash fp2,
          cmp_identicalContent = identicalContent\<rparr>)"

text \<open>Predicates on text used to describe the output of \<open>normalise\<close>.\<close>

definition startsWith :: "char \<Rightarrow> string \<Rightarrow> bool" where
  "startsWith x s = (case s of [] \<Rightarrow> False | c # cs \<Rightarrow> c = x)"

definition startsWithWs :: "string \<Rightarrow> bool" where
  "startsWithWs s = (case s of [] \<Rightarrow> False | c # cs \<Rightarrow> isWhiteSpace c)"

fun noSlashSlash :: "string \<Rightarrow> bool" where
  "noSlashSlash (c # cs) = (\<not> (c = CHR ''/'' \<and> startsWith (CHR ''/'') cs) \<and> noSlashSlash cs)"
| "noSlashSlash [] = True"

fun hasClose :: "string \<Rightarrow> bool" where
  "hasClose (c # cs) = ((c = CHR ''*'' \<and> startsWith (CHR ''/'') cs) \<or> hasClose cs)"
| "hasClose [] = False"

fun hasBlock :: "string \<Rightarrow> bool" where
  "hasBlock (c # cs) =
     ((c = CHR ''/'' \<and> startsWith (CHR ''*'') cs \<and> hasClose (tl cs)) \<or> hasBlock cs)"
| "hasBlock [] = False"

fun wsNormal :: "string \<Rightarrow> bool" where
  "wsNormal (c # cs) =
     ((\<not> isWhiteSpace c \<or> (c = CHR '' '' \<and> \<not> startsWithWs cs)) \<and> wsNormal cs)"
| "wsNormal [] = True"

section \<open>Cross-repository scan (crossCompareRepos) and the file filter (fetchRepoFiles)\<close>

record repoFile =
  f_path :: string
  f_content :: string

record repo =
  r_repoId :: string
  r_files :: "repoFile list"

record flag =
  fl_repo1 :: string
  fl_repo2 :: string
  fl_file1 :: string
  fl_file2 :: string
  fl_similarity :: real
  fl_identicalContent :: bool

text \<open>\<open>Map.prototype.set\<close>: a present key keeps its position and takes the new value, a new
  key goes to the end.\<close>

primrec mapSet :: "'k \<Rightarrow> 'v \<Rightarrow> ('k \<times> 'v) list \<Rightarrow> ('k \<times> 'v) list" where
  "mapSet k v [] = [(k, v)]"
| "mapSet k v (p # ps) = (if fst p = k then (k, v) # ps else p # mapSet k v ps)"

text \<open>\<open>path.split(".").pop()\<close>: the text after the last dot, the whole path without one.\<close>

definition splitPop :: "string \<Rightarrow> string" where
  "splitPop path = rev (takeWhile (\<lambda>c. c \<noteq> CHR ''.'') (rev path))"

definition buildFpMap :: "(string \<Rightarrow> 'h) \<Rightarrow> repoFile list \<Rightarrow> (string \<times> 'h fingerprintResult) list" where
  "buildFpMap sha256 fs =
     foldl (\<lambda>fpMap file.
        mapSet (f_path file) (fingerprint sha256 (f_content file) DEFAULT_K DEFAULT_W) fpMap)
       [] fs"

definition buildIndex ::
  "(string \<Rightarrow> 'h) \<Rightarrow> repo list \<Rightarrow> (string \<times> (string \<times> 'h fingerprintResult) list) list" where
  "buildIndex sha256 repos =
     foldl (\<lambda>index r. mapSet (r_repoId r) (buildFpMap sha256 (r_files r)) index) [] repos"

text \<open>The body of the two inner loops for one pair of files.\<close>

definition compareFiles ::
  "real \<Rightarrow> string \<Rightarrow> string \<Rightarrow> string \<times> 'h fingerprintResult \<Rightarrow> string \<times> 'h fingerprintResult
     \<Rightarrow> flag list" where
  "compareFiles threshold idA idB a b =
     (let pathA = fst a; fpA = snd a; pathB = fst b; fpB = snd b;
          extA = splitPop pathA;
          extB = splitPop pathB
      in if extA \<noteq> extB then []
         else (let sim = jaccardSimilarity (fingerprints fpA) (fingerprints fpB)
               in if sim \<ge> threshold
                  then [\<lparr>fl_repo1 = idA, fl_repo2 = idB, fl_file1 = pathA, fl_file2 = pathB,
                         fl_similarity = jsRound3 sim,
                         fl_identicalContent = (fp_hash fpA = fp_hash fpB)\<rparr>]
                  else []))"

definition compareRepoPair ::
  "real \<Rightarrow> string \<times> (string \<times> 'h fingerprintResult) list
     \<Rightarrow> string \<times> (string \<times> 'h fingerprintResult) list \<Rightarrow> flag list" where
  "compareRepoPair threshold ra rb =
     concat (map (\<lambda>a. concat (map (\<lambda>b. compareFiles threshold (fst ra) (fst rb) a b) (snd rb)))
       (snd ra))"

text \<open>The comparator \<open>(a, b) => b.similarity - a.similarity\<close> with the stable
  \<open>Array.prototype.sort\<close>: descending by similarity.\<close>

definition crossCompareRepos :: "(string \<Rightarrow> 'h) \<Rightarrow> repo list \<Rightarrow> real \<Rightarrow> flag list" where
  "crossCompareRepos sha256 repos threshold =
     (let index = buildIndex sha256 repos;
          n = length index;
          flags = concat (map (\<lambda>i. concat (map (\<lambda>j.
                    compareRepoPair threshold (index ! i) (index ! j)) [i + 1..<n])) [0..<n])
      in sort_key (\<lambda>f. - fl_similarity f) flags)"

text \<open>
  The filter of \<open>fetchRepoFiles\<close> on the entries of the repository tree: blobs of at most
  100000 bytes whose lowercased extension is a code extension and whose path has none of
  the skipped parts.
\<close>

record treeItem =
  t_type :: string
  t_size :: nat
  t_path :: string

definition codeExtensions :: "string list" where
  "codeExtensions =
     [''js'', ''ts'', ''jsx'', ''tsx'', ''py'', ''java'', ''c'', ''cpp'', ''h'', ''hpp'',
      ''cs'', ''go'', ''rs'', ''rb'', ''php'', ''swift'', ''kt'', ''scala'', ''html'', ''css'']"

fun strIncludes :: "string \<Rightarrow> string \<Rightarrow> bool" where
  "strIncludes [] pat = (pat = [])"
| "strIncludes (c # cs) pat = (prefix pat (c # cs) \<or> strIncludes cs pat)"

definition keepTreeItem :: "treeItem \<Rightarrow> bool" where
  "keepTreeItem item =
     (if t_type item \<noteq> ''blob'' then False
      else if t_size item > 100000 then False
      else (let ext = toLowerCase (splitPop (t_path item))
            in if ext \<notin> set codeExtensions then False
               else if strIncludes (t_path item) ''node_modules/'' \<or>
                       strIncludes (t_path item) ''package-lock.json'' \<or>
                       strIncludes (t_path item) ''.min.'' \<or>
                       strIncludes (t_path item) ''vendor/'' \<or>
                       strIncludes (t_path item) ''dist/''
               then False else True))"

definition sumSource :: string where
  "sumSource = ''function sum(a,b){ return a+b; }''"

definition oneFileRepo :: "string \<Rightarrow> string \<Rightarrow> repo" where
  "oneFileRepo rid path = \<lparr>r_repoId = rid, r_files = [\<lparr>f_path = path, f_content = sumSource\<rparr>]\<rparr>"

section \<open>Persisting similarity matches (jobs/githubSync.js, routes/github-monitor.js)\<close>

text \<open>
  The collection of analysis documents, by participant id.
  \<open>findOneAndUpdate({ participantId }, { $push: { similarityMatches: m }, $max:
  { highestSimilarity: s } })\<close> changes the document of that participant, if there is one.
\<close>

type_synonym analysisStore = "string \<rightharpoonup> githubAnalysis"

definition pushMatchAndMax :: "analysisStore \<Rightarrow> string \<Rightarrow> similarityMatch \<Rightarrow> real \<Rightarrow> analysisStore" where
  "pushMatchAndMax st pid m s =
     (case st pid of
        None \<Rightarrow> st
      | Some a \<Rightarrow> st(pid \<mapsto> a\<lparr>similarityMatches := similarityMatches a @ [m],
                              highestSimilarity := max (highestSimilarity a) s\<rparr>))"

definition recalcAndSave :: "analysisStore \<Rightarrow> string \<Rightarrow> analysisStore" where
  "recalcAndSave st pid =
     (case st pid of None \<Rightarrow> st | Some doc \<Rightarrow> st(pid \<mapsto> recalculateSuspicion doc))"

text \<open>\<open>runCrossComparison\<close>, from "Persist matches" on. A missing or empty participant id
  skips the flag.\<close>

definition persistFlag :: "(string \<rightharpoonup> string) \<Rightarrow> analysisStore \<Rightarrow> flag \<Rightarrow> analysisStore" where
  "persistFlag repoToParticipant st fl =
     (case repoToParticipant (fl_repo1 fl) of
        None \<Rightarrow> st
      | Some pid1 \<Rightarrow>
         (case repoToParticipant (fl_repo2 fl) of
            None \<Rightarrow> st
          | Some pid2 \<Rightarrow>
             if pid1 = [] \<or> pid2 = [] then st
             else (let matchData1 =
                         \<lparr>otherParticipantId = pid2, otherRepo = fl_repo2 fl,
                          sm_file1 = fl_file1 fl, sm_file2 = fl_file2 fl,
                          sm_similarity = fl_similarity fl,
                          sm_identicalContent = fl_identicalContent fl\<rparr>;
                       matchData2 =
                         \<lparr>otherParticipantId = pid1, otherRepo = fl_repo1 fl,
                          sm_file1 = fl_file2 fl, sm_file2 = fl_file1 fl,
                          sm_similarity = fl_similarity fl,
                          sm_identicalContent = fl_identicalContent fl\<rparr>;
                       st = pushMatchAndMax st pid1 matchData1 (fl_similarity fl)
                   in pushMatchAndMax st pid2 matchData2 (fl_similarity fl))))"

definition affectedOf :: "(string \<rightharpoonup> string) \<Rightarrow> string list \<Rightarrow> flag \<Rightarrow> string list" where
  "affectedOf repoToParticipant affectedPids fl =
     (let affectedPids =
            (case repoToParticipant (fl_repo1 fl) of
               None \<Rightarrow> affectedPids
             | Some pid1 \<Rightarrow> if pid1 = [] then affectedPids else setAdd pid1 affectedPids)
      in case repoToParticipant (fl_repo2 fl) of
           None \<Rightarrow> affectedPids
         | Some pid2 \<Rightarrow> if pid2 = [] then affectedPids else setAdd pid2 affectedPids)"

definition runCrossComparison_persist ::
  "(string \<rightharpoonup> string) \<Rightarrow> analysisStore \<Rightarrow> flag list \<Rightarrow> analysisStore" where
  "runCrossComparison_persist repoToParticipant st flags =
     (let st = foldl (persistFlag repoToParticipant) st flags;
          affectedPids = foldl (affectedOf repoToParticipant) [] flags
      in foldl recalcAndSave st affectedPids)"

text \<open>\<open>compareRepositories\<close>, from "Persist similarity matches" on.\<close>

record repoRef =
  rr_owner :: string
  rr_repo :: string
  rr_participantId :: string

definition persistMatch :: "repoRef \<Rightarrow> repoRef \<Rightarrow> analysisStore \<Rightarrow> flag \<Rightarrow> analysisStore" where
  "persistMatch repo1 repo2 st m =
     (let st = pushMatchAndMax st (rr_participantId repo1)
                 \<lparr>otherParticipantId = rr_participantId repo2,
                  otherRepo = rr_owner repo2 @ ''/'' @ rr_repo repo2,
                  sm_file1 = fl_file1 m, sm_file2 = fl_file2 m,
                  sm_similarity = fl_similarity m,
                  sm_identicalContent = fl_identicalContent m\<rparr>
                 (fl_similarity m)
      in pushMatchAndMax st (rr_participantId repo2)
           \<lparr>otherParticipantId = rr_participantId repo1,
            otherRepo = rr_owner repo1 @ ''/'' @ rr_repo repo1,
            sm_file1 = fl_file2 m, sm_file2 = fl_file1 m,
            sm_similarity = fl_similarity m,
            sm_identicalContent = fl_identicalContent m\<rparr>
           (fl_similarity m))"

definition compareRepositories_persist ::
  "repoRef \<Rightarrow> repoRef \<Rightarrow> analysisStore \<Rightarrow> flag list \<Rightarrow> analysisStore" where
  "compareRepositories_persist repo1 repo2 st matches =
     (let st = foldl (persistMatch repo1 repo2) st matches
      in foldl recalcAndSave st [rr_participantId repo1, rr_participantId repo2])"

text \<open>A new analysis document has the schema defaults.\<close>

definition newAnalysis :: "string \<Rightarrow> string \<Rightarrow> string \<Rightarrow> githubAnalysis" where
  "newAnalysis pid owner rname =
     \<lparr>participantId = pid, repoOwner = owner, repoName = rname,
      timingAnalysis = emptyTiming, avgCommitSuspicionScore = 0, similarityMatches = [],
      highestSimilarity = 0, githubSuspicionScore = 0\<rparr>"

text \<open>The invariant of the specification.\<close>

definition similarityInvariant :: "githubAnalysis \<Rightarrow> bool" where
  "similarityInvariant a =
     (highestSimilarity a = Max (insert 0 (sm_similarity ` set (similarityMatches a))))"

text \<open>How a later state of the collection relates to an earlier one, document by document.\<close>

definition carriesOver :: "analysisStore \<Rightarrow> analysisStore \<Rightarrow> bool" where
  "carriesOver st st' =
     (\<forall>pid a'. st' pid = Some a' \<longrightarrow>
        (\<exists>a. st pid = Some a \<and> (similarityInvariant a \<longrightarrow> similarityInvariant a') \<and>
             highestSimilarity a \<le> highestSimilarity a'))"

definition exampleStore :: analysisStore where
  "exampleStore =
     [''p1'' \<mapsto> newAnalysis ''p1'' ''alice'' ''sol'', ''p2'' \<mapsto> newAnalysis ''p2'' ''bob'' ''sol'']"

definition exampleRepoToParticipant :: "string \<rightharpoonup> string" where
  "exampleRepoToParticipant = [''alice/sol'' \<mapsto> ''p1'', ''bob/sol'' \<mapsto> ''p2'']"

definition exampleFlag :: flag where
  "exampleFlag =
     \<lparr>fl_repo1 = ''alice/sol'', fl_repo2 = ''bob/sol'', fl_file1 = ''index.js'',
      fl_file2 = ''index.js'', fl_similarity = 0.9, fl_identicalContent = False\<rparr>"

section \<open>Properties\<close>

lemma sliceLast_suffix: "suffix (sliceLast n xs) xs"
  by (simp add: sliceLast_def suffix_drop)

lemma sliceLast_length: "length (sliceLast n xs) = min n (length xs)"
  by (simp add: sliceLast_def)

text \<open>
  C7. Every typing-pattern update leaves a sequence of at most 10000 intervals; when the
  appended sequence is longer than 10000, the result is its last 8000 intervals.
\<close>

theorem typing_pattern_cap:
  "typingPattern \<noteq> [] \<Longrightarrow>
   (\<exists>ys. updateTypingPattern doc typingPattern = Some ys \<and> length ys \<le> 10000 \<and>
      (10000 < length (storedIntervals doc @ map ts_interval typingPattern) \<longrightarrow>
         suffix ys (storedIntervals doc @ map ts_interval typingPattern) \<and> length ys = 8000))"
  by (simp add: updateTypingPattern_def appendIntervals_def Let_def sliceLast_suffix
      sliceLast_length)

theorem typing_pattern_cap_witness:
  "[\<lparr>ts_timestamp = 0, ts_interval = 7\<rparr>] \<noteq> [] \<and>
   (\<exists>ys. updateTypingPattern (Some (replicate 10000 1)) [\<lparr>ts_timestamp = 0, ts_interval = 7\<rparr>] = Some ys
      \<and> length ys = 8000)"
  using typing_pattern_cap [of "[\<lparr>ts_timestamp = 0, ts_interval = 7\<rparr>]" "Some (replicate 10000 1)"]
  by (auto simp add: storedIntervals_def suffix_def)

subsection \<open>Double arithmetic\<close>

text \<open>Powers of two and the binary exponent.\<close>

lemma pow2_powr: "pow2 e = 2 powr (real_of_int e)"
proof (cases "e \<ge> 0")
  case True
  then have "real_of_int e = real (nat e)" by simp
  then have "2 powr (real_of_int e) = 2 ^ nat e" by (simp only: powr_realpow zero_less_numeral)
  with True show ?thesis by (simp add: pow2_def)
next
  case False
  then have "real_of_int e = - real (nat (- e))" by simp
  then have "2 powr (real_of_int e) = 1 / 2 ^ nat (- e)"
    by (simp only: powr_minus powr_realpow zero_less_numeral inverse_eq_divide)
  with False show ?thesis by (simp add: pow2_def)
qed

lemma pow2_pos [simp]: "0 < pow2 e"
  by (simp add: pow2_powr)

lemma pow2_add: "pow2 (a + b) = pow2 a * pow2 b"
  by (simp add: pow2_powr powr_add)

lemma pow2_diff: "pow2 (a - b) = pow2 a / pow2 b"
  by (simp add: pow2_powr powr_diff)

lemma pow2_le_iff [simp]: "(pow2 a \<le> pow2 b) = (a \<le> b)"
  by (simp add: pow2_powr)

lemma pow2_less_iff [simp]: "(pow2 a < pow2 b) = (a < b)"
  by (simp add: pow2_powr)

lemma pow2_nat: "pow2 (int n) = 2 ^ n"
  by (simp add: pow2_def)

lemma expo_bounds:
  assumes "x \<noteq> 0"
  shows "pow2 (expo x) \<le> \<bar>x\<bar>" and "\<bar>x\<bar> < pow2 (expo x + 1)"
proof -
  have "pow2 (expo x) \<le> \<bar>x\<bar> \<and> \<bar>x\<bar> < pow2 (expo x + 1)"
  proof (cases "\<bar>x\<bar> \<ge> 1")
    case True
    let ?n = "\<lfloor>\<bar>x\<bar>\<rfloor>"
    have n: "?n > 0" using True by simp
    then have b1: "1 \<le> bitlen ?n" by (auto simp: bitlen_alt_def)
    from bitlen_bounds [OF n]
    have lo: "2 ^ nat (bitlen ?n - 1) \<le> ?n" and hi: "?n < 2 ^ nat (bitlen ?n)" by simp_all
    have e: "expo x = bitlen ?n - 1" using True by (simp add: expo_def)
    have "pow2 (expo x) = 2 ^ nat (bitlen ?n - 1)" using b1 by (simp add: e pow2_def)
    also have "\<dots> = of_int (2 ^ nat (bitlen ?n - 1))" by simp
    also have "\<dots> \<le> of_int ?n" using lo by (simp only: of_int_le_iff)
    also have "\<dots> \<le> \<bar>x\<bar>" by simp
    finally have 1: "pow2 (expo x) \<le> \<bar>x\<bar>" .
    from hi have "?n + 1 \<le> 2 ^ nat (bitlen ?n)" by simp
    then have "real_of_int (?n + 1) \<le> real_of_int (2 ^ nat (bitlen ?n))"
      by (simp only: of_int_le_iff)
    then have a: "real_of_int ?n + 1 \<le> 2 ^ nat (bitlen ?n)" by simp
    have "\<bar>x\<bar> < real_of_int ?n + 1" by linarith
    with a have "\<bar>x\<bar> < 2 ^ nat (bitlen ?n)" by linarith
    moreover have "pow2 (expo x + 1) = 2 ^ nat (bitlen ?n)" using b1 by (simp add: e pow2_def)
    ultimately show ?thesis using 1 by simp
  next
    case False
    let ?y = "1 / \<bar>x\<bar>"
    let ?m = "\<lceil>?y\<rceil> - 1"
    have xpos: "0 < \<bar>x\<bar>" using assms by simp
    have y1: "1 < ?y" using False xpos by simp
    then have m: "?m > 0" by linarith
    then have b1: "1 \<le> bitlen ?m" by (auto simp: bitlen_alt_def)
    from bitlen_bounds [OF m]
    have lo: "2 ^ nat (bitlen ?m - 1) \<le> ?m" and hi: "?m < 2 ^ nat (bitlen ?m)" by simp_all
    have e: "expo x = - bitlen ?m" using False by (simp add: expo_def)
    have p1: "pow2 (expo x) = 1 / 2 ^ nat (bitlen ?m)" using b1 by (simp add: e pow2_def)
    have p2: "pow2 (expo x + 1) = 1 / 2 ^ nat (bitlen ?m - 1)"
    proof (cases "bitlen ?m = 1")
      case True
      then show ?thesis by (simp add: e pow2_def)
    next
      case False
      with b1 have "- bitlen ?m + 1 < 0" by simp
      moreover have "nat (bitlen ?m - 1) = nat (- (- bitlen ?m + 1))" by simp
      ultimately show ?thesis by (simp add: e pow2_def)
    qed
    from hi have "?m + 1 \<le> 2 ^ nat (bitlen ?m)" by simp
    then have "real_of_int (?m + 1) \<le> real_of_int (2 ^ nat (bitlen ?m))"
      by (simp only: of_int_le_iff)
    then have a: "real_of_int ?m + 1 \<le> 2 ^ nat (bitlen ?m)" by simp
    have "?y \<le> real_of_int ?m + 1" by simp
    with a have "?y \<le> 2 ^ nat (bitlen ?m)" by linarith
    then have 1: "1 / 2 ^ nat (bitlen ?m) \<le> \<bar>x\<bar>"
      using xpos by (simp add: field_simps)
    from lo have "real_of_int (2 ^ nat (bitlen ?m - 1)) \<le> real_of_int ?m"
      by (simp only: of_int_le_iff)
    then have b: "2 ^ nat (bitlen ?m - 1) \<le> real_of_int ?m" by simp
    have "real_of_int ?m < ?y" by linarith
    with b have "2 ^ nat (bitlen ?m - 1) < ?y" by linarith
    then have 2: "\<bar>x\<bar> < 1 / 2 ^ nat (bitlen ?m - 1)"
      using xpos by (simp add: field_simps)
    from 1 2 p1 p2 show ?thesis by simp
  qed
  then show "pow2 (expo x) \<le> \<bar>x\<bar>" and "\<bar>x\<bar> < pow2 (expo x + 1)" by simp_all
qed

lemma expo_mono: "x \<noteq> 0 \<Longrightarrow> \<bar>x\<bar> \<le> \<bar>y\<bar> \<Longrightarrow> expo x \<le> expo y"
proof -
  assume x: "x \<noteq> 0" and le: "\<bar>x\<bar> \<le> \<bar>y\<bar>"
  then have y: "y \<noteq> 0" by auto
  have "pow2 (expo x) \<le> \<bar>x\<bar>" using expo_bounds(1) [OF x] .
  also have "\<dots> \<le> \<bar>y\<bar>" by (rule le)
  also have "\<dots> < pow2 (expo y + 1)" using expo_bounds(2) [OF y] .
  finally show ?thesis by simp
qed

lemma expo_less: "x \<noteq> 0 \<Longrightarrow> \<bar>x\<bar> < pow2 k \<Longrightarrow> expo x < k"
proof -
  assume x: "x \<noteq> 0" and lt: "\<bar>x\<bar> < pow2 k"
  have "pow2 (expo x) \<le> \<bar>x\<bar>" using expo_bounds(1) [OF x] .
  also have "\<dots> < pow2 k" by (rule lt)
  finally show ?thesis by simp
qed

lemma pow2_nonneg [simp]: "0 \<le> pow2 e"
  using pow2_pos [of e] by linarith

lemma pow2_neq0 [simp]: "pow2 e \<noteq> 0"
  using pow2_pos [of e] by linarith

lemma pow2_split53: "2 ^ 53 * pow2 (e - 52) = pow2 (e + 1)"
proof -
  have "pow2 (53 + (e - 52)) = pow2 53 * pow2 (e - 52)" by (rule pow2_add)
  moreover have "53 + (e - 52) = e + 1" by simp
  moreover have "pow2 53 = 2 ^ 53" by (simp add: pow2_def)
  ultimately show ?thesis by simp
qed

lemma pow2_split52: "2 ^ 52 * pow2 (e - 52) = pow2 e"
proof -
  have "pow2 (52 + (e - 52)) = pow2 52 * pow2 (e - 52)" by (rule pow2_add)
  moreover have "52 + (e - 52) = e" by simp
  moreover have "pow2 52 = 2 ^ 52" by (simp add: pow2_def)
  ultimately show ?thesis by simp
qed

lemma pow2_Suc: "pow2 (e + 1) = 2 * pow2 e"
proof -
  have "pow2 (e + 1) = pow2 e * pow2 1" by (rule pow2_add)
  moreover have "pow2 1 = 2" by (simp add: pow2_def)
  ultimately show ?thesis by simp
qed

text \<open>Rounding to the nearest double: fixed points and monotonicity.\<close>

lemma roundHalfEven_int [simp]: "roundHalfEven (of_int n) = n"
  by (simp add: roundHalfEven_def)

lemma roundHalfEven_range:
  "\<lfloor>y\<rfloor> \<le> roundHalfEven y" "roundHalfEven y \<le> \<lfloor>y\<rfloor> + 1"
  by (simp_all add: roundHalfEven_def Let_def)

lemma roundHalfEven_mono: "a \<le> b \<Longrightarrow> roundHalfEven a \<le> roundHalfEven b"
proof -
  assume ab: "a \<le> b"
  then have floors: "\<lfloor>a\<rfloor> \<le> \<lfloor>b\<rfloor>" by (rule floor_mono)
  show ?thesis
  proof (cases "\<lfloor>a\<rfloor> = \<lfloor>b\<rfloor>")
    case True
    then have "a - of_int \<lfloor>a\<rfloor> \<le> b - of_int \<lfloor>b\<rfloor>" using ab by simp
    with True show ?thesis by (auto simp add: roundHalfEven_def Let_def)
  next
    case False
    with floors have "\<lfloor>a\<rfloor> + 1 \<le> \<lfloor>b\<rfloor>" by simp
    with roundHalfEven_range(2) [of a] roundHalfEven_range(1) [of b] show ?thesis by linarith
  qed
qed

lemma roundHalfEven_le: "y \<le> of_int n \<Longrightarrow> roundHalfEven y \<le> n"
  using roundHalfEven_mono [of y "of_int n"] by simp

lemma roundHalfEven_ge: "of_int n \<le> y \<Longrightarrow> n \<le> roundHalfEven y"
  using roundHalfEven_mono [of "of_int n" y] by simp

lemma dbl_zero [simp]: "dbl 0 = 0"
  by (simp add: dbl_def)

lemma dbl_nonneg: "0 \<le> x \<Longrightarrow> 0 \<le> dbl x"
proof (cases "x = 0")
  case False
  assume "0 \<le> x"
  then have "0 \<le> x / pow2 (max (expo x) (- 1022) - 52)" by simp
  then have "0 \<le> roundHalfEven (x / pow2 (max (expo x) (- 1022) - 52))"
    using roundHalfEven_ge [of 0] by simp
  with False show ?thesis by (simp add: dbl_def Let_def)
qed simp

lemma dbl_nonpos: "x \<le> 0 \<Longrightarrow> dbl x \<le> 0"
proof (cases "x = 0")
  case False
  assume "x \<le> 0"
  then have "x / pow2 (max (expo x) (- 1022) - 52) \<le> 0" by (simp add: divide_nonpos_pos)
  then have "roundHalfEven (x / pow2 (max (expo x) (- 1022) - 52)) \<le> 0"
    using roundHalfEven_le [of _ 0] by simp
  then have "real_of_int (roundHalfEven (x / pow2 (max (expo x) (- 1022) - 52))) *
      pow2 (max (expo x) (- 1022) - 52) \<le> 0"
    by (simp add: mult_nonpos_nonneg)
  with False show ?thesis by (simp add: dbl_def Let_def)
qed simp

text \<open>Values with at most 53 significant bits and an exponent in range are not changed.\<close>

lemma dbl_representable:
  assumes "\<bar>m\<bar> < 2 ^ 53" "- 1074 \<le> k"
  shows "dbl (of_int m * pow2 k) = of_int m * pow2 k"
proof (cases "m = 0")
  case True
  then show ?thesis by simp
next
  case False
  define y where "y = of_int m * pow2 k"
  define e where "e = max (expo y) (- 1022)"
  have y0: "y \<noteq> 0" using False by (simp add: y_def)
  have "\<bar>y\<bar> = of_int \<bar>m\<bar> * pow2 k" by (simp add: y_def abs_mult)
  also have "\<dots> < 2 ^ 53 * pow2 k"
  proof -
    have "real_of_int \<bar>m\<bar> < real_of_int (2 ^ 53)" using assms(1) by (simp only: of_int_less_iff)
    then show ?thesis by simp
  qed
  also have "\<dots> = pow2 (k + 53)" using pow2_split53 [of "k + 52"] by (simp add: add.commute)
  finally have "expo y < k + 53" using expo_less [OF y0] by simp
  then have ek: "e - 52 \<le> k" using assms(2) by (simp add: e_def)
  define j where "j = k - (e - 52)"
  have j: "0 \<le> j" using ek by (simp add: j_def)
  have "pow2 (j + (e - 52)) = pow2 j * pow2 (e - 52)" by (rule pow2_add)
  moreover have "j + (e - 52) = k" by (simp add: j_def)
  ultimately have pk: "pow2 k = pow2 j * pow2 (e - 52)" by simp
  have pj: "pow2 j = of_int (2 ^ nat j)" using j by (simp add: pow2_def)
  have q: "y / pow2 (e - 52) = of_int (m * 2 ^ nat j)"
    unfolding y_def pk pj by simp
  have "dbl y = of_int (roundHalfEven (y / pow2 (e - 52))) * pow2 (e - 52)"
    using y0 by (simp add: dbl_def Let_def e_def)
  also have "\<dots> = of_int (m * 2 ^ nat j) * pow2 (e - 52)"
    by (simp only: q roundHalfEven_int)
  also have "\<dots> = of_int m * (pow2 j * pow2 (e - 52))"
    unfolding pj by simp
  also have "\<dots> = y" by (simp only: pk [symmetric] y_def)
  finally show ?thesis by (simp only: y_def)
qed

lemma dbl_mantissa_bound:
  assumes "x \<noteq> 0"
  shows "\<bar>roundHalfEven (x / pow2 (max (expo x) (- 1022) - 52))\<bar> \<le> 2 ^ 53"
proof -
  let ?e = "max (expo x) (- 1022)"
  let ?u = "pow2 (?e - 52)"
  have "\<bar>x\<bar> < pow2 (expo x + 1)" using expo_bounds(2) [OF assms] .
  also have "\<dots> \<le> pow2 (?e + 1)" by simp
  also have "\<dots> = 2 ^ 53 * ?u" by (simp only: pow2_split53)
  finally have ax: "\<bar>x\<bar> < 2 ^ 53 * ?u" .
  then have "x \<le> 2 ^ 53 * ?u" "- (2 ^ 53) * ?u \<le> x" by linarith+
  then have "x / ?u \<le> 2 ^ 53" "- (2 ^ 53) \<le> x / ?u"
    by (simp_all add: pos_divide_le_eq pos_le_divide_eq)
  then have "x / ?u \<le> of_int (2 ^ 53)" "of_int (- (2 ^ 53)) \<le> x / ?u" by simp_all
  then have "roundHalfEven (x / ?u) \<le> 2 ^ 53" "- (2 ^ 53) \<le> roundHalfEven (x / ?u)"
    using roundHalfEven_le roundHalfEven_ge by blast+
  then show ?thesis by simp
qed

lemma dbl_idem [simp]: "dbl (dbl x) = dbl x"
proof (cases "x = 0")
  case True
  then show ?thesis by simp
next
  case False
  let ?e = "max (expo x) (- 1022)"
  let ?m = "roundHalfEven (x / pow2 (?e - 52))"
  have f: "dbl x = of_int ?m * pow2 (?e - 52)" using False by (simp add: dbl_def Let_def)
  have k: "- 1074 \<le> ?e - 52" by simp
  have mb: "\<bar>?m\<bar> \<le> 2 ^ 53" using dbl_mantissa_bound [OF False] .
  show ?thesis
  proof (cases "\<bar>?m\<bar> < 2 ^ 53")
    case True
    then show ?thesis unfolding f using k by (rule dbl_representable)
  next
    case False
    with mb have "\<bar>?m\<bar> = 2 ^ 53" by simp
    then have "?m = 2 * 2 ^ 52 \<or> ?m = 2 * (- (2 ^ 52))" by (auto simp add: abs_if split: if_splits)
    then obtain h :: int where h: "?m = 2 * h" "\<bar>h\<bar> < 2 ^ 53" by auto
    have "of_int ?m * pow2 (?e - 52) = of_int h * pow2 (?e - 52 + 1)"
      by (simp only: h(1) pow2_Suc)
    moreover have "dbl (of_int h * pow2 (?e - 52 + 1)) = of_int h * pow2 (?e - 52 + 1)"
      using h(2) by (rule dbl_representable) simp
    ultimately show ?thesis by (simp only: f)
  qed
qed

lemma dbl_mono_nonneg:
  assumes "0 \<le> x" "x \<le> y"
  shows "dbl x \<le> dbl y"
proof (cases "x = 0")
  case True
  with assms show ?thesis by (simp add: dbl_nonneg)
next
  case False
  then have x: "x \<noteq> 0" and y: "y \<noteq> 0" using assms by auto
  define ex where "ex = max (expo x) (- 1022)"
  define ey where "ey = max (expo y) (- 1022)"
  have "expo x \<le> expo y" using expo_mono [OF x] assms by simp
  then have le: "ex \<le> ey" by (simp add: ex_def ey_def)
  have fx: "dbl x = of_int (roundHalfEven (x / pow2 (ex - 52))) * pow2 (ex - 52)"
    using x by (simp add: dbl_def Let_def ex_def)
  have fy: "dbl y = of_int (roundHalfEven (y / pow2 (ey - 52))) * pow2 (ey - 52)"
    using y by (simp add: dbl_def Let_def ey_def)
  show ?thesis
  proof (cases "ex = ey")
    case True
    have "x / pow2 (ey - 52) \<le> y / pow2 (ey - 52)"
      using assms(2) by (simp add: divide_right_mono)
    then have "roundHalfEven (x / pow2 (ey - 52)) \<le> roundHalfEven (y / pow2 (ey - 52))"
      by (rule roundHalfEven_mono)
    then have "real_of_int (roundHalfEven (x / pow2 (ey - 52))) * pow2 (ey - 52)
        \<le> real_of_int (roundHalfEven (y / pow2 (ey - 52))) * pow2 (ey - 52)"
      by (simp add: mult_right_mono)
    then show ?thesis unfolding fx fy True .
  next
    case False
    with le have lt: "ex < ey" by linarith
    have "- 1022 \<le> ex" by (simp add: ex_def)
    with lt have "ey \<noteq> - 1022" by linarith
    then have ey: "ey = expo y" by (simp add: ey_def max_def split: if_splits)
    have "pow2 (expo y) \<le> \<bar>y\<bar>" using expo_bounds(1) [OF y] .
    then have "pow2 ey \<le> y" using assms ey by simp
    then have "2 ^ 52 * pow2 (ey - 52) \<le> y" by (simp only: pow2_split52)
    then have "of_int (2 ^ 52) \<le> y / pow2 (ey - 52)" by (simp add: pos_le_divide_eq)
    then have "2 ^ 52 \<le> roundHalfEven (y / pow2 (ey - 52))" by (rule roundHalfEven_ge)
    then have "real_of_int (2 ^ 52) \<le> real_of_int (roundHalfEven (y / pow2 (ey - 52)))"
      by (simp only: of_int_le_iff)
    then have "2 ^ 52 * pow2 (ey - 52) \<le> dbl y"
      unfolding fy by (simp add: mult_right_mono)
    then have low: "pow2 ey \<le> dbl y"
      by (simp only: pow2_split52)
    have "roundHalfEven (x / pow2 (ex - 52)) \<le> 2 ^ 53"
      using dbl_mantissa_bound [OF x] by (simp add: ex_def)
    then have "real_of_int (roundHalfEven (x / pow2 (ex - 52))) \<le> real_of_int (2 ^ 53)"
      by (simp only: of_int_le_iff)
    then have "dbl x \<le> 2 ^ 53 * pow2 (ex - 52)"
      unfolding fx by (simp add: mult_right_mono)
    also have "\<dots> = pow2 (ex + 1)"
      by (simp only: pow2_split53)
    also have "\<dots> \<le> pow2 ey" using lt by simp
    finally show ?thesis using low by simp
  qed
qed

lemma dbl_le: "x \<le> y \<Longrightarrow> 0 \<le> y \<Longrightarrow> dbl x \<le> dbl y"
proof (cases "0 \<le> x")
  case True
  assume "x \<le> y"
  with True show ?thesis by (rule dbl_mono_nonneg)
next
  case False
  assume "0 \<le> y"
  then have "0 \<le> dbl y" by (rule dbl_nonneg)
  moreover have "dbl x \<le> 0" using False by (simp add: dbl_nonpos)
  ultimately show ?thesis by simp
qed

lemma dbl_int: "\<bar>n\<bar> < 2 ^ 53 \<Longrightarrow> dbl (of_int n) = of_int n"
  using dbl_representable [of n 0] by (simp add: pow2_def)

text \<open>The rounding idiom and the clamp.\<close>

lemma dbl_one [simp]: "dbl 1 = 1"
  using dbl_int [of 1] by simp

lemma dbl_1000 [simp]: "dbl 1000 = 1000"
  using dbl_int [of 1000] by simp

lemma dadd_zero_left: "dadd 0 (dbl x) = dbl x"
  by (simp add: dadd_def)

lemma dadd_zero_right: "dadd (dbl x) 0 = dbl x"
  by (simp add: dadd_def)

lemma dmul_commute: "dmul x y = dmul y x"
  by (simp add: dmul_def mult.commute)

lemma dmul_zero [simp]: "dmul x 0 = 0" "dmul 0 x = 0"
  by (simp_all add: dmul_def)

lemma jsRound_mono: "x \<le> y \<Longrightarrow> jsRound x \<le> jsRound y"
  unfolding jsRound_def by (simp add: floor_mono)

lemma jsRound3_le_one: "x \<le> 1 \<Longrightarrow> jsRound3 x \<le> 1"
proof -
  assume "x \<le> 1"
  then have "x * 1000 \<le> 1000" by simp
  then have "dbl (x * 1000) \<le> dbl 1000" by (rule dbl_le) simp
  then have "jsRound (dmul x 1000) \<le> jsRound 1000"
    unfolding dmul_def by (simp add: jsRound_mono)
  moreover have "jsRound 1000 = 1000" by (simp add: jsRound_def)
  ultimately have "jsRound (dmul x 1000) / 1000 \<le> 1" by simp
  then have "dbl (jsRound (dmul x 1000) / 1000) \<le> dbl 1" by (rule dbl_le) simp
  then show ?thesis by (simp add: jsRound3_def ddiv_def)
qed

lemma jsRound3_ge_one: "1 \<le> x \<Longrightarrow> 1 \<le> jsRound3 x"
proof -
  assume "1 \<le> x"
  then have "1000 \<le> x * 1000" by simp
  then have "dbl 1000 \<le> dbl (x * 1000)" by (rule dbl_mono_nonneg [rotated]) simp
  then have "jsRound 1000 \<le> jsRound (dmul x 1000)"
    unfolding dmul_def by (simp add: jsRound_mono)
  moreover have "jsRound 1000 = 1000" by (simp add: jsRound_def)
  ultimately have "1 \<le> jsRound (dmul x 1000) / 1000" by simp
  then have "dbl 1 \<le> dbl (jsRound (dmul x 1000) / 1000)" by (rule dbl_mono_nonneg [rotated]) simp
  then show ?thesis by (simp add: jsRound3_def ddiv_def)
qed

lemma jsRound3_one: "jsRound3 1 = 1"
  using jsRound3_le_one [of 1] jsRound3_ge_one [of 1] by simp

lemma jsRound3_clamp: "min (jsRound3 x) 1 = jsRound3 (min 1 x)"
proof (cases "x \<le> 1")
  case True
  then have "jsRound3 x \<le> 1" by (rule jsRound3_le_one)
  with True show ?thesis by (simp add: min_def)
next
  case False
  then have "1 \<le> jsRound3 x" using jsRound3_ge_one [of x] by simp
  with False show ?thesis by (simp add: min_def jsRound3_one)
qed

subsection \<open>Source suspicion score\<close>

lemma dbl_dadd [simp]: "dbl (dadd x y) = dadd x y"
  by (simp add: dadd_def)

lemma dbl_dmul [simp]: "dbl (dmul x y) = dmul x y"
  by (simp add: dmul_def)

lemma dbl_ddiv [simp]: "dbl (ddiv x y) = ddiv x y"
  by (simp add: ddiv_def)

lemma dbl_min [simp]: "dbl (min (dbl x) (dbl y)) = min (dbl x) (dbl y)"
  by (simp add: min_def)

lemma dadd_zero: "dbl x = x \<Longrightarrow> dadd x 0 = x"
  by (simp add: dadd_def)

lemma dadd_guard: "dbl x = x \<Longrightarrow> (if c then dadd x y else x) = dadd x (if c then y else 0)"
  by (simp add: dadd_def)

lemma dbl_quarter_nonneg: "0 \<le> dbl 0.25"
  by (rule dbl_nonneg) simp

lemma recalculateSuspicion_score:
  "0 \<le> avgCommitSuspicionScore a \<Longrightarrow>
   githubSuspicionScore (recalculateSuspicion a) =
     dbl_sourceScoreWith (avgCommitSuspicionScore a) (length (idleBursts (timingAnalysis a)))
       (dbl_plagiarismContribution (highestSimilarity a))"
proof -
  assume nonneg: "0 \<le> avgCommitSuspicionScore a"
  define s1 where "s1 = dmul (dbl 0.35) (avgCommitSuspicionScore a)"
  define s2 where
    "s2 = dadd s1 (min (dbl 0.25) (dmul (dbl 0.1) (real (length (idleBursts (timingAnalysis a))))))"
  have w1: "(if avgCommitSuspicionScore a > 0
             then dadd 0 (dmul (avgCommitSuspicionScore a) (dbl 0.35)) else 0) = s1"
    using nonneg by (auto simp add: s1_def dadd_zero_left dmul_commute dmul_def)
  have d1: "dbl s1 = s1"
    by (simp add: s1_def)
  have w2: "(if length (idleBursts (timingAnalysis a)) > 0
             then dadd s1 (min (dmul (real (length (idleBursts (timingAnalysis a)))) (dbl 0.1)) (dbl 0.25))
             else s1) = s2"
    using dbl_quarter_nonneg d1
    by (auto simp add: s2_def dmul_commute min.commute dadd_zero)
  have d2: "dbl s2 = s2"
    by (simp add: s2_def)
  have w3: "(if highestSimilarity a > dbl 0.8 then dadd s2 (dbl 0.4)
             else if highestSimilarity a > dbl 0.5 then dadd s2 (dmul (highestSimilarity a) (dbl 0.3))
             else s2)
            = dadd s2 (dbl_plagiarismContribution (highestSimilarity a))"
    using d2 by (simp add: dbl_plagiarismContribution_def dmul_commute dadd_zero)
  have "githubSuspicionScore (recalculateSuspicion a) =
        min (jsRound3
          (if highestSimilarity a > dbl 0.8
           then dadd (if length (idleBursts (timingAnalysis a)) > 0
             then dadd (if avgCommitSuspicionScore a > 0 then dadd 0 (dmul (avgCommitSuspicionScore a) (dbl 0.35)) else 0)
                    (min (dmul (real (length (idleBursts (timingAnalysis a)))) (dbl 0.1)) (dbl 0.25))
             else (if avgCommitSuspicionScore a > 0 then dadd 0 (dmul (avgCommitSuspicionScore a) (dbl 0.35)) else 0)) (dbl 0.4)
           else if highestSimilarity a > dbl 0.5
           then dadd (if length (idleBursts (timingAnalysis a)) > 0
             then dadd (if avgCommitSuspicionScore a > 0 then dadd 0 (dmul (avgCommitSuspicionScore a) (dbl 0.35)) else 0)
                    (min (dmul (real (length (idleBursts (timingAnalysis a)))) (dbl 0.1)) (dbl 0.25))
             else (if avgCommitSuspicionScore a > 0 then dadd 0 (dmul (avgCommitSuspicionScore a) (dbl 0.35)) else 0))
             (dmul (highestSimilarity a) (dbl 0.3))
           else (if length (idleBursts (timingAnalysis a)) > 0
             then dadd (if avgCommitSuspicionScore a > 0 then dadd 0 (dmul (avgCommitSuspicionScore a) (dbl 0.35)) else 0)
                    (min (dmul (real (length (idleBursts (timingAnalysis a)))) (dbl 0.1)) (dbl 0.25))
             else (if avgCommitSuspicionScore a > 0 then dadd 0 (dmul (avgCommitSuspicionScore a) (dbl 0.35)) else 0)))) 1"
    unfolding recalculateSuspicion_def Let_def by (simp split del: if_split)
  then have "githubSuspicionScore (recalculateSuspicion a) =
        min (jsRound3 (dadd s2 (dbl_plagiarismContribution (highestSimilarity a)))) 1"
    unfolding w1 w2 w3 .
  then show ?thesis
    unfolding jsRound3_clamp dbl_sourceScoreWith_def s2_def s1_def .
qed



lemma source_score_tie:
  "githubSuspicionScore (recalculateSuspicion ((exampleAnalysis 0)\<lparr>avgCommitSuspicionScore := dbl 0.01\<rparr>))
     = dbl 0.003"
  by code_simp

lemma source_score_tie_exact: "spec_sourceScore (dbl 0.01) 0 0 = 0.004"
  by code_simp

lemma dbl_0003: "dbl 0.003 \<noteq> 0.004"
  by code_simp

text \<open>
  C1 as stated fails when the formula is read in exact arithmetic: the code's products and
  sums are doubles, and a sum that is exactly halfway between two thousandths can fall just
  below it. With average commit score 0.01, no idle burst and no similarity, the exact sum
  \<open>0.35 * 0.01\<close> rounds to 0.004, while the code's product is 0.0034999999999999996 and its
  score 0.003.
\<close>

theorem source_score_exact_counterexample:
  "githubSuspicionScore (recalculateSuspicion ((exampleAnalysis 0)\<lparr>avgCommitSuspicionScore := dbl 0.01\<rparr>))
     = dbl 0.003 \<and>
   spec_sourceScore (dbl 0.01) 0 0 = 0.004 \<and>
   githubSuspicionScore (recalculateSuspicion ((exampleAnalysis 0)\<lparr>avgCommitSuspicionScore := dbl 0.01\<rparr>))
     \<noteq> spec_sourceScore (dbl 0.01) 0 0"
  using dbl_0003 by (simp only: source_score_tie source_score_tie_exact simp_thms)

lemma source_score_example: "dbl_sourceScore 0 0 (dbl 0.9) = dbl 0.4"
  by code_simp

text \<open>
  C1 amended. With a non-negative average commit score (the schema's minimum), the
  recomputed source suspicion score is the formula evaluated in double arithmetic: the
  three contributions added from left to right, the sum clamped to 1 and rounded to three
  decimals, every constant, product, sum and quotient being a double.
\<close>

theorem source_score_double_formula:
  "0 \<le> avgCommitSuspicionScore a \<Longrightarrow>
   githubSuspicionScore (recalculateSuspicion a) =
     dbl_sourceScore (avgCommitSuspicionScore a) (length (idleBursts (timingAnalysis a))) (highestSimilarity a)"
  by (simp add: recalculateSuspicion_score dbl_sourceScore_def)

theorem source_score_double_formula_witness:
  "0 \<le> avgCommitSuspicionScore (exampleAnalysis (dbl 0.9)) \<and>
   githubSuspicionScore (recalculateSuspicion (exampleAnalysis (dbl 0.9))) = dbl_sourceScore 0 0 (dbl 0.9) \<and>
   dbl_sourceScore 0 0 (dbl 0.9) = dbl 0.4"
  using source_score_double_formula [of "exampleAnalysis (dbl 0.9)"] source_score_example
  by (simp add: exampleAnalysis_def emptyTiming_def)








subsection \<open>Participant score\<close>

lemma dbl_min_fixed: "dbl x = x \<Longrightarrow> dbl y = y \<Longrightarrow> dbl (min x y) = min x y"
  by (simp add: min_def)

lemma dadd_zero_dbl: "dadd 0 x = dbl x"
  by (simp add: dadd_def)

lemma calculateParticipantSuspicion_double:
  "calculateParticipantSuspicion log10 s = dbl_participantScore log10 s"
proof -
  define t1 where "t1 = (if pasteCount s > 0
    then min (dbl 0.5) (dmul (dbl 0.18) (log10 (dadd (pasteCount s) 1))) else 0)"
  define t2 where "t2 = (if pasteCharsTotal s > 1000
    then min (dbl 0.3) (ddiv (pasteCharsTotal s) 10000) else 0)"
  define t3 where "t3 = (if typingAnomalies s > 5
    then min (dbl 0.2) (ddiv (typingAnomalies s) 100) else 0)"
  define t4 where "t4 = (if windowBlurTotalMs s > 600000 then dbl 0.15 else 0)"
  define t5 where "t5 = (if clipboardChanges s > 20
    then min (dbl 0.15) (ddiv (clipboardChanges s) 200) else 0)"
  have d1: "dbl t1 = t1"
    by (simp add: t1_def dbl_min_fixed)
  have g1: "(if pasteCount s > 0
             then dadd 0 (min (dmul (log10 (dadd (pasteCount s) 1)) (dbl 0.18)) (dbl 0.5)) else 0) = t1"
    by (simp add: t1_def dadd_zero_dbl dbl_min_fixed min.commute dmul_commute)
  have g2: "(if pasteCharsTotal s > 1000
             then dadd t1 (min (ddiv (pasteCharsTotal s) 10000) (dbl 0.3)) else t1) = dadd t1 t2"
    using d1 by (simp add: t2_def dadd_zero min.commute)
  have g3: "(if typingAnomalies s > 5
             then dadd (dadd t1 t2) (min (ddiv (typingAnomalies s) 100) (dbl 0.2)) else dadd t1 t2)
            = dadd (dadd t1 t2) t3"
    by (simp add: t3_def dadd_zero min.commute)
  have g4: "(if windowBlurTotalMs s > 600000
             then dadd (dadd (dadd t1 t2) t3) (dbl 0.15) else dadd (dadd t1 t2) t3)
            = dadd (dadd (dadd t1 t2) t3) t4"
    by (simp add: t4_def dadd_zero)
  have g5: "(if clipboardChanges s > 20
             then dadd (dadd (dadd (dadd t1 t2) t3) t4) (min (ddiv (clipboardChanges s) 200) (dbl 0.15))
             else dadd (dadd (dadd t1 t2) t3) t4)
            = dadd (dadd (dadd (dadd t1 t2) t3) t4) t5"
    by (simp add: t5_def dadd_zero min.commute)
  have "calculateParticipantSuspicion log10 s =
        min (jsRound3 (dadd (dadd (dadd (dadd t1 t2) t3) t4) t5)) 1"
    unfolding calculateParticipantSuspicion_def Let_def WARNING_BLUR_TOTAL_MS_def g1 g2 g3 g4 g5 ..
  then show ?thesis
    unfolding jsRound3_clamp dbl_participantScore_def t1_def t2_def t3_def t4_def t5_def .
qed

lemma log10_2_lower: "59 / 196 \<le> log 10 (2::real)"
proof -
  have a: "log 10 ((2::real) ^ 196) = real (196::nat) * log 10 2"
    by (rule log_nat_power) simp
  have b: "log 10 ((10::real) ^ 59) = real (59::nat) * log 10 10"
    by (rule log_nat_power) simp
  have c: "log 10 ((10::real) ^ 59) \<le> log 10 ((2::real) ^ 196)"
    by (subst log_le_cancel_iff) simp_all
  from a b c show ?thesis by simp
qed

lemma log10_2_upper: "log 10 (2::real) \<le> 28 / 93"
proof -
  have a: "log 10 ((2::real) ^ 93) = real (93::nat) * log 10 2"
    by (rule log_nat_power) simp
  have b: "log 10 ((10::real) ^ 28) = real (28::nat) * log 10 10"
    by (rule log_nat_power) simp
  have c: "log 10 ((2::real) ^ 93) \<le> log 10 ((10::real) ^ 28)"
    by (subst log_le_cancel_iff) simp_all
  from a b c show ?thesis by simp
qed

lemma dbl_two: "dbl 2 = 2"
  using dbl_int [of 2] by simp

lemma dbl_brackets:
  "0.1799 \<le> dbl 0.18" "dbl 0.18 \<le> 0.1801"
  "0.05399 \<le> dbl 0.054" "dbl 0.0544 \<le> 0.05441"
  "53.98 \<le> dbl 53.99" "dbl 54.41 \<le> 54.42"
  "dbl 0.5 = 0.5"
  by code_simp+

text \<open>
  One paste: with a logarithm that is within 0.0004 of the true value at 2, the product
  with 0.18 and the product with 1000 stay strictly between 53.5 and 54.5.
\<close>

lemma one_paste_double:
  assumes "\<bar>log10 2 - log 10 2\<bar> \<le> 1 / 2500"
  shows "min (jsRound3 (dadd 0 (min (dmul (log10 (dadd 1 1)) (dbl 0.18)) (dbl 0.5)))) 1 = dbl 0.054"
proof -
  have two: "dadd 1 1 = 2"
    by (simp add: dadd_def dbl_two)
  have "log10 2 - log 10 2 \<le> 1 / 2500" "log 10 2 - log10 2 \<le> 1 / 2500"
    using assms by linarith+
  then have L: "3006 / 10000 \<le> log10 2" "log10 2 \<le> 3015 / 10000"
    using log10_2_lower log10_2_upper by linarith+
  note C = dbl_brackets(1,2)
  have "3006 / 10000 * 0.1799 \<le> log10 2 * dbl 0.18"
    using L C by (intro mult_mono) simp_all
  then have p1: "0.054 \<le> log10 2 * dbl 0.18"
    by simp
  have "log10 2 * dbl 0.18 \<le> 3015 / 10000 * 0.1801"
    using L C by (intro mult_mono) simp_all
  then have p2: "log10 2 * dbl 0.18 \<le> 0.0544"
    by simp
  define w where "w = dmul (log10 2) (dbl 0.18)"
  have "dbl 0.054 \<le> w"
    unfolding w_def dmul_def using p1 by (rule dbl_le) (use p1 in simp)
  moreover have "w \<le> dbl 0.0544"
    unfolding w_def dmul_def using p2 by (rule dbl_le) simp
  ultimately have wb: "0.05399 \<le> w" "w \<le> 0.05441"
    using dbl_brackets(3,4) by linarith+
  have "w \<le> dbl 0.5"
    using wb(2) dbl_brackets(7) by simp
  then have m: "min w (dbl 0.5) = w"
    by (rule min.absorb1)
  have s: "dadd 0 w = w"
    by (simp add: dadd_def w_def)
  define t where "t = dmul w 1000"
  have "53.99 \<le> w * 1000" "w * 1000 \<le> 54.41"
    using wb by simp_all
  then have "dbl 53.99 \<le> t" "t \<le> dbl 54.41"
    unfolding t_def dmul_def by (auto intro: dbl_le)
  then have tb: "53.98 \<le> t" "t \<le> 54.42"
    using dbl_brackets(5,6) by linarith+
  then have "\<lfloor>t + 1 / 2\<rfloor> = 54"
    by (simp add: floor_eq_iff)
  then have j: "jsRound3 w = dbl 0.054"
    by (simp add: jsRound3_def jsRound_def t_def ddiv_def)
  have le: "dbl 0.054 \<le> 1"
    using dbl_le [of "0.054" 1] by simp
  have "min (jsRound3 (dadd 0 (min (dmul (log10 (dadd 1 1)) (dbl 0.18)) (dbl 0.5)))) 1
        = min (jsRound3 (dadd 0 (min w (dbl 0.5)))) 1"
    unfolding two w_def ..
  also have "\<dots> = min (dbl 0.054) 1"
    unfolding m s j ..
  also have "\<dots> = dbl 0.054"
    using le by (rule min.absorb1)
  finally show ?thesis .
qed

lemma sampleLog10_close: "\<bar>sampleLog10 2 - log 10 2\<bar> \<le> 1 / 2500"
proof -
  have "sampleLog10 2 = 5422874305198591 / 18014398509481984"
    by (simp add: sampleLog10_def)
  then show ?thesis
    using log10_2_lower log10_2_upper by linarith
qed

lemma participant_score_tie:
  "calculateParticipantSuspicion sampleLog10 (emptyStats\<lparr>pasteCharsTotal := 1035, typingAnomalies := 6\<rparr>)
     = dbl 0.163"
  by code_simp

lemma participant_score_tie_exact:
  "spec_participantScore (emptyStats\<lparr>pasteCharsTotal := 1035, typingAnomalies := 6\<rparr>) = 0.164"
  by (simp add: spec_participantScore_def emptyStats_def round3_def jsRound_def)

lemma dbl_0163: "dbl 0.163 \<noteq> 0.164"
  by code_simp

text \<open>
  C3 as stated fails when the formula is read in exact arithmetic. With 1035 pasted
  characters and 6 typing anomalies the exact sum is 0.1035 + 0.06 = 0.1635, which rounds
  to 0.164; the code's sum of doubles is 0.16349999999999998 and its score 0.163.
\<close>

theorem participant_score_exact_counterexample:
  "calculateParticipantSuspicion sampleLog10 (emptyStats\<lparr>pasteCharsTotal := 1035, typingAnomalies := 6\<rparr>)
     = dbl 0.163 \<and>
   spec_participantScore (emptyStats\<lparr>pasteCharsTotal := 1035, typingAnomalies := 6\<rparr>) = 0.164 \<and>
   calculateParticipantSuspicion sampleLog10 (emptyStats\<lparr>pasteCharsTotal := 1035, typingAnomalies := 6\<rparr>)
     \<noteq> spec_participantScore (emptyStats\<lparr>pasteCharsTotal := 1035, typingAnomalies := 6\<rparr>)"
  using dbl_0163 by (simp only: participant_score_tie participant_score_tie_exact simp_thms)

text \<open>
  C3 amended. The aggregate participant score is the guarded sum evaluated in double
  arithmetic, every constant, product, quotient and sum being a double, added from left to
  right, clamped to 1 and rounded to three decimals. With one paste and every other counter
  at or below its guard the score is 0.054, for every \<open>Math.log10\<close> that is within 0.0004
  of the logarithm at 2.
\<close>

theorem participant_score_double_formula:
  "calculateParticipantSuspicion log10 s = dbl_participantScore log10 s \<and>
   (\<bar>log10 2 - log 10 2\<bar> \<le> 1 / 2500 \<and>
    pasteCount s = 1 \<and> pasteCharsTotal s \<le> 1000 \<and> typingAnomalies s \<le> 5 \<and>
    windowBlurTotalMs s \<le> 600000 \<and> clipboardChanges s \<le> 20 \<longrightarrow>
      calculateParticipantSuspicion log10 s = dbl 0.054)"
proof (intro conjI impI)
  show "calculateParticipantSuspicion log10 s = dbl_participantScore log10 s"
    by (rule calculateParticipantSuspicion_double)
next
  assume a: "\<bar>log10 2 - log 10 2\<bar> \<le> 1 / 2500 \<and>
    pasteCount s = 1 \<and> pasteCharsTotal s \<le> 1000 \<and> typingAnomalies s \<le> 5 \<and>
    windowBlurTotalMs s \<le> 600000 \<and> clipboardChanges s \<le> 20"
  then have "calculateParticipantSuspicion log10 s =
      min (jsRound3 (dadd 0 (min (dmul (log10 (dadd 1 1)) (dbl 0.18)) (dbl 0.5)))) 1"
    by (simp add: calculateParticipantSuspicion_def WARNING_BLUR_TOTAL_MS_def Let_def)
  also have "\<dots> = dbl 0.054"
    using a by (simp only: one_paste_double)
  finally show "calculateParticipantSuspicion log10 s = dbl 0.054" .
qed

theorem participant_score_double_formula_witness:
  "\<bar>sampleLog10 2 - log 10 2\<bar> \<le> 1 / 2500 \<and>
   pasteCount (emptyStats\<lparr>pasteCount := 1, pasteCharsTotal := 600\<rparr>) = 1 \<and>
   pasteCharsTotal (emptyStats\<lparr>pasteCount := 1, pasteCharsTotal := 600\<rparr>) \<le> 1000 \<and>
   calculateParticipantSuspicion sampleLog10 (emptyStats\<lparr>pasteCount := 1, pasteCharsTotal := 600\<rparr>)
     = dbl 0.054"
  using participant_score_double_formula [of sampleLog10 "emptyStats\<lparr>pasteCount := 1, pasteCharsTotal := 600\<rparr>"]
    sampleLog10_close
  by (simp add: emptyStats_def)

subsection \<open>Window blur counters\<close>




subsection \<open>Idle bursts\<close>

lemma lookAhead_count:
  "lookAhead commits j c =
     c + length (takeWhile (\<lambda>j. gapBefore commits j < 5 * 60 * 1000) [j..<length commits])"
proof (induction commits j c rule: lookAhead.induct)
  case (1 commits j burstCount)
  show ?case
  proof (cases "j < length commits")
    case True
    then have upt: "[j..<length commits] = j # [j + 1..<length commits]"
      by (simp add: upt_conv_Cons)
    show ?thesis
    proof (cases "gapBefore commits j < 5 * 60 * 1000")
      case True
      with \<open>j < length commits\<close> "1.IH" show ?thesis
        by (subst lookAhead.simps) (simp add: upt gapBefore_def BURST_INTERVAL_MS_def)
    next
      case False
      with \<open>j < length commits\<close> show ?thesis
        by (subst lookAhead.simps) (simp add: upt gapBefore_def BURST_INTERVAL_MS_def)
    qed
  next
    case False
    then show ?thesis
      by (subst lookAhead.simps) simp
  qed
qed

text \<open>The counter of the look-ahead loop starts at 1: it ends at one more than the number
  of followers.\<close>

lemma lookAhead_followers: "lookAhead commits (Suc i) (Suc 0) = Suc (spec_followers commits i)"
  by (simp add: lookAhead_count spec_followers_def)

lemma timingStep_idleBursts:
  "idleBursts (timingStep commits acc i) =
     idleBursts acc @ (if 0 < i \<and> spec_isIdleBurst commits i then [spec_episode commits i] else [])"
proof -
  have three: "(3 \<le> Suc (spec_followers commits i)) = (2 \<le> spec_followers commits i)"
    by arith
  show ?thesis
    by (simp add: timingStep_def Let_def lookAhead_followers three spec_isIdleBurst_def
        spec_episode_def gapBefore_def LONG_IDLE_MS_def)
qed

lemma timing_fold_idleBursts:
  "idleBursts (foldl (timingStep commits) acc [0..<k]) =
     idleBursts acc @ map (spec_episode commits) (filter (spec_isIdleBurst commits) [1..<k])"
proof (induction k)
  case 0
  show ?case by simp
next
  case (Suc k)
  show ?case
  proof (cases "k = 0")
    case True
    then show ?thesis by (simp add: timingStep_idleBursts)
  next
    case False
    then have "[1..<Suc k] = [1..<k] @ [k]" by simp
    with Suc False show ?thesis by (simp add: timingStep_idleBursts)
  qed
qed

text \<open>At least two followers: the two commits after commit \<open>i\<close> exist and each is less
  than five minutes after its predecessor.\<close>

lemma spec_followers_two:
  "(spec_followers commits i \<ge> 2) =
     (i + 2 < length commits \<and> gapBefore commits (i + 1) < 5 * 60 * 1000 \<and>
      gapBefore commits (i + 2) < 5 * 60 * 1000)"
proof (cases "i + 2 < length commits")
  case True
  then have "[i + 1..<length commits] = (i + 1) # (i + 2) # [Suc (i + 2)..<length commits]"
    by (simp add: upt_conv_Cons)
  then show ?thesis using True by (simp add: spec_followers_def)
next
  case False
  then have "length [i + 1..<length commits] \<le> 1"
    by simp
  then have "length (takeWhile (\<lambda>j. gapBefore commits j < 5 * 60 * 1000) [i + 1..<length commits]) \<le> 1"
    using length_takeWhile_le le_trans by blast
  then show ?thesis using False by (simp add: spec_followers_def)
qed

text \<open>Commits at minutes 0, 45, 46, 47 and 48: one episode, starting at minute 45, of four
  commits.\<close>

lemma idle_then_burst_scenario:
  "idleBursts (analyzeTimingDistribution (map commitAt [0, 45, 46, 47, 48])) =
     [\<lparr>idleStartedAt = 0, burstStartedAt = 2700000, idleDurationMin = 45,
       burstCommitCount = 4\<rparr>]"
  by code_simp

text \<open>
  C4 as stated fails. Commits at minutes 0, 31, 32 and 33: the gap of 31 minutes is followed
  by two commits, each one minute after its predecessor. No gap is followed by a run of three
  such commits, so the stated rule gives no episode; the analysis emits one, with
  \<open>burstCommitCount = 3\<close>, because its counter starts at 1 for the commit that ends the gap.
\<close>

theorem idle_burst_two_followers_counterexample:
  "idleBursts (analyzeTimingDistribution (map commitAt [0, 31, 32, 33])) =
     [\<lparr>idleStartedAt = 0, burstStartedAt = 1860000, idleDurationMin = 31,
       burstCommitCount = 3\<rparr>] \<and>
   spec_followers (map commitAt [0, 31, 32, 33]) 1 = 2 \<and>
   map (claimed_episode (map commitAt [0, 31, 32, 33]))
     (filter (claimed_isIdleBurst (map commitAt [0, 31, 32, 33]))
        [1..<length (map commitAt [0, 31, 32, 33])]) = []"
  by code_simp

text \<open>
  C4 amended. The idle-burst episodes of the timing analysis are, in order, those of the
  positions \<open>i\<close> whose gap to the predecessor exceeds 30 minutes and that have at least 2
  followers (the commits after commit \<open>i\<close> each less than 5 minutes after its predecessor,
  up to the first gap of 5 minutes or more), that is, a burst of at least 3 commits counting
  commit \<open>i\<close>: the two commits after commit \<open>i\<close> exist and each is less than 5 minutes after
  its predecessor. Each episode starts at commit \<open>i\<close> and carries one more than the number
  of followers.
\<close>

theorem idle_burst_detection:
  "idleBursts (analyzeTimingDistribution commits) =
     map (spec_episode commits) (filter (spec_isIdleBurst commits) [1..<length commits]) \<and>
   spec_isIdleBurst commits i =
     (gapBefore commits i > 30 * 60 * 1000 \<and> i + 2 < length commits \<and>
      gapBefore commits (i + 1) < 5 * 60 * 1000 \<and> gapBefore commits (i + 2) < 5 * 60 * 1000) \<and>
   burstCommitCount (spec_episode commits i) = spec_followers commits i + 1 \<and>
   burstStartedAt (spec_episode commits i) = c_date (commits ! i)"
proof (intro conjI)
  show "idleBursts (analyzeTimingDistribution commits) =
     map (spec_episode commits) (filter (spec_isIdleBurst commits) [1..<length commits])"
    by (simp add: analyzeTimingDistribution_def timing_fold_idleBursts emptyTiming_def)
  show "spec_isIdleBurst commits i =
     (gapBefore commits i > 30 * 60 * 1000 \<and> i + 2 < length commits \<and>
      gapBefore commits (i + 1) < 5 * 60 * 1000 \<and> gapBefore commits (i + 2) < 5 * 60 * 1000)"
    unfolding spec_isIdleBurst_def spec_followers_two ..
  show "burstCommitCount (spec_episode commits i) = spec_followers commits i + 1"
    by (simp add: spec_episode_def)
  show "burstStartedAt (spec_episode commits i) = c_date (commits ! i)"
    by (simp add: spec_episode_def)
qed

lemma followers_example: "spec_followers (map commitAt [0, 45, 46, 47, 48]) 1 = 3"
  by code_simp

theorem idle_burst_detection_witness:
  "spec_isIdleBurst (map commitAt [0, 45, 46, 47, 48]) 1 \<and>
   burstCommitCount (spec_episode (map commitAt [0, 45, 46, 47, 48]) 1) = 4 \<and>
   burstStartedAt (spec_episode (map commitAt [0, 45, 46, 47, 48]) 1) = 2700000"
  using idle_burst_detection [of "map commitAt [0, 45, 46, 47, 48]" 1] followers_example
  by (simp add: gapBefore_def commitAt_def)

subsection \<open>Normalisation\<close>


lemma startsWith_simps [simp]:
  "startsWith x [] = False" "startsWith x (c # cs) = (c = x)"
  by (simp_all add: startsWith_def)

lemma findClose_hasClose: "(findClose s \<noteq> None) = hasClose s"
  by (induction s rule: findClose.induct) auto

lemma findClose_None: "(findClose s = None) = (\<not> hasClose s)"
  using findClose_hasClose [of s] by blast

lemma findClose_Some_hasClose: "findClose s = Some r \<Longrightarrow> hasClose s"
  using findClose_hasClose [of s] by simp

lemma stripBlockComments_keep:
  "d \<noteq> CHR ''/'' \<Longrightarrow> stripBlockComments (d # cs) = d # stripBlockComments cs"
  by (cases cs) auto

lemma findClose_suffix: "findClose s = Some r \<Longrightarrow> suffix r s"
  by (induction s rule: findClose.induct) (auto split: if_splits simp: suffix_Cons)

text \<open>Closure under suffixes.\<close>

lemma noSlashSlash_suffix: "suffix t s \<Longrightarrow> noSlashSlash s \<Longrightarrow> noSlashSlash t"
  by (induction s) (auto simp: suffix_Cons)

lemma hasClose_suffix: "suffix t s \<Longrightarrow> hasClose t \<Longrightarrow> hasClose s"
  by (induction s) (auto simp: suffix_Cons)

lemma hasBlock_suffix: "suffix t s \<Longrightarrow> hasBlock t \<Longrightarrow> hasBlock s"
  by (induction s) (auto simp: suffix_Cons)

text \<open>Text without the pattern of a step is left unchanged by it.\<close>

lemma stripLineComments_fix: "noSlashSlash s \<Longrightarrow> stripLineComments s = s"
  by (induction s rule: stripLineComments.induct) auto

lemma stripBlockComments_fix: "\<not> hasBlock s \<Longrightarrow> stripBlockComments s = s"
  by (induction s rule: stripBlockComments.induct)
    (auto simp: findClose_None split: option.splits dest: findClose_Some_hasClose)

lemma stripHashComments_fix: "CHR ''#'' \<notin> set s \<Longrightarrow> stripHashComments s = s"
  by (induction s rule: stripHashComments.induct) auto

text \<open>Line comments.\<close>

lemma startsWith_dropWhile_LT:
  "\<not> isLineTerminator x \<Longrightarrow> \<not> startsWith x (dropWhile (\<lambda>c. \<not> isLineTerminator c) cs)"
  by (induction cs) auto

lemma stripLineComments_head:
  "startsWith x (stripLineComments s) \<Longrightarrow> \<not> isLineTerminator x \<Longrightarrow> startsWith x s"
proof (induction s rule: stripLineComments.induct)
  case (1 c d cs)
  then show ?case
  proof (cases "c = CHR ''/'' \<and> d = CHR ''/''")
    case True
    with 1 have "startsWith x (dropWhile (\<lambda>c. \<not> isLineTerminator c) cs)" by simp
    with 1 show ?thesis by (simp add: startsWith_dropWhile_LT)
  next
    case False
    with 1 show ?thesis by auto
  qed
qed auto

lemma stripLineComments_noSlashSlash: "noSlashSlash (stripLineComments s)"
proof (induction s rule: stripLineComments.induct)
  case (1 c d cs)
  show ?case
  proof (cases "c = CHR ''/'' \<and> d = CHR ''/''")
    case True
    with 1 show ?thesis by simp
  next
    case False
    have "startsWith (CHR ''/'') (stripLineComments (d # cs)) \<Longrightarrow> d = CHR ''/''"
      using stripLineComments_head [of "CHR ''/''" "d # cs"] by (simp add: isLineTerminator_def)
    with False 1 show ?thesis by auto
  qed
qed auto

text \<open>Block comments.\<close>

lemma stripBlockComments_noSlashSlash:
  "noSlashSlash s \<Longrightarrow> noSlashSlash (stripBlockComments s)"
proof (induction s rule: stripBlockComments.induct)
  case (1 c d cs)
  show ?case
  proof (cases "c = CHR ''/'' \<and> d = CHR ''*''")
    case True
    show ?thesis
    proof (cases "findClose cs")
      case None
      with True 1 show ?thesis by (auto simp: stripBlockComments_keep)
    next
      case (Some rest)
      then have "noSlashSlash rest"
        using findClose_suffix [OF Some] noSlashSlash_suffix [of rest "c # d # cs"] "1.prems"
        by (auto simp: suffix_Cons)
      with True Some 1 show ?thesis by simp
    qed
  next
    case False
    note notComment = False
    show ?thesis
    proof (cases "c = CHR ''/''")
      case True
      with "1.prems" have "d \<noteq> CHR ''/''" by auto
      then have "stripBlockComments (d # cs) = d # stripBlockComments cs"
        by (cases cs) auto
      with True notComment 1 \<open>d \<noteq> CHR ''/''\<close> show ?thesis by auto
    next
      case False
      with notComment 1 show ?thesis by auto
    qed
  qed
qed auto

lemma stripBlockComments_noBlock:
  "noSlashSlash s \<Longrightarrow> \<not> hasBlock (stripBlockComments s)"
proof (induction s rule: stripBlockComments.induct)
  case (1 c d cs)
  show ?case
  proof (cases "c = CHR ''/'' \<and> d = CHR ''*''")
    case True
    show ?thesis
    proof (cases "findClose cs")
      case None
      then have nc: "\<not> hasClose cs" by (simp add: findClose_None)
      have "\<not> hasBlock cs" using nc
        by (induction cs) (auto simp: startsWith_def split: list.splits)
      then have "stripBlockComments cs = cs" by (rule stripBlockComments_fix)
      moreover have "stripBlockComments (d # cs) = d # stripBlockComments cs"
        using True by (cases cs) auto
      ultimately show ?thesis using True None 1 nc by auto
    next
      case (Some rest)
      then have "noSlashSlash rest"
        using findClose_suffix [OF Some] noSlashSlash_suffix [of rest "c # d # cs"] "1.prems"
        by (auto simp: suffix_Cons)
      with True Some 1 show ?thesis by simp
    qed
  next
    case False
    note notComment = False
    show ?thesis
    proof (cases "c = CHR ''/''")
      case True
      with "1.prems" have "d \<noteq> CHR ''/''" by auto
      then have "stripBlockComments (d # cs) = d # stripBlockComments cs"
        by (cases cs) auto
      with True notComment 1 \<open>d \<noteq> CHR ''/''\<close> show ?thesis by auto
    next
      case False
      with notComment 1 show ?thesis by auto
    qed
  qed
qed auto





lemma special_notWs [simp]:
  "\<not> isWhiteSpace (CHR ''/'')" "\<not> isWhiteSpace (CHR ''*'')" "\<not> isWhiteSpace (CHR ''#'')"
  by (simp_all add: isWhiteSpace_def)

lemma special_notLT [simp]:
  "\<not> isLineTerminator (CHR ''/'')" "\<not> isLineTerminator (CHR ''*'')"
  by (simp_all add: isLineTerminator_def)

text \<open>Hash comments.\<close>

lemma stripHashComments_head:
  "startsWith x (stripHashComments s) \<Longrightarrow> \<not> isLineTerminator x \<Longrightarrow> startsWith x s"
proof (induction s rule: stripHashComments.induct)
  case (1 c cs)
  show ?case
  proof (cases "c = CHR ''#''")
    case True
    with 1 have "startsWith x (dropWhile (\<lambda>c. \<not> isLineTerminator c) cs)" by simp
    with 1 show ?thesis by (simp add: startsWith_dropWhile_LT)
  next
    case False
    with 1 show ?thesis by auto
  qed
qed auto

lemma stripHashComments_noHash: "CHR ''#'' \<notin> set (stripHashComments s)"
  by (induction s rule: stripHashComments.induct) auto

lemma stripHashComments_hasClose: "hasClose (stripHashComments s) \<Longrightarrow> hasClose s"
proof (induction s rule: stripHashComments.induct)
  case (1 c cs)
  show ?case
  proof (cases "c = CHR ''#''")
    case True
    with 1 have "hasClose (dropWhile (\<lambda>c. \<not> isLineTerminator c) cs)" by simp
    then have "hasClose cs" using hasClose_suffix suffix_dropWhile by blast
    then show ?thesis by simp
  next
    case False
    with 1 stripHashComments_head [of "CHR ''/''" cs] show ?thesis
      by auto
  qed
qed auto

lemma stripHashComments_noSlashSlash: "noSlashSlash s \<Longrightarrow> noSlashSlash (stripHashComments s)"
proof (induction s rule: stripHashComments.induct)
  case (1 c cs)
  show ?case
  proof (cases "c = CHR ''#''")
    case True
    from "1.prems" have "noSlashSlash (dropWhile (\<lambda>c. \<not> isLineTerminator c) cs)"
      using noSlashSlash_suffix [OF suffix_dropWhile, of cs] by simp
    with True 1 show ?thesis by simp
  next
    case False
    with 1 stripHashComments_head [of "CHR ''/''" cs] show ?thesis
      by auto
  qed
qed auto

lemma stripHashComments_hasBlock: "hasBlock (stripHashComments s) \<Longrightarrow> hasBlock s"
proof (induction s rule: stripHashComments.induct)
  case (1 c cs)
  show ?case
  proof (cases "c = CHR ''#''")
    case True
    with 1 have "hasBlock (dropWhile (\<lambda>c. \<not> isLineTerminator c) cs)" by simp
    then have "hasBlock cs" using hasBlock_suffix suffix_dropWhile by blast
    then show ?thesis by simp
  next
    case False
    note keep = False
    show ?thesis
    proof (cases "hasBlock (stripHashComments cs)")
      case True
      with keep 1 show ?thesis by simp
    next
      case False
      with keep "1.prems" have c: "c = CHR ''/''"
        and st: "startsWith (CHR ''*'') (stripHashComments cs)"
        and cl: "hasClose (tl (stripHashComments cs))" by auto
      from st have "startsWith (CHR ''*'') cs"
        by (rule stripHashComments_head) simp
      then obtain cs' where cs: "cs = CHR ''*'' # cs'" by (cases cs) auto
      with cl have "hasClose (stripHashComments cs')" by simp
      then have "hasClose cs'" by (rule stripHashComments_hasClose)
      with c cs show ?thesis by simp
    qed
  qed
qed auto

text \<open>Whitespace.\<close>

lemma startsWithWs_simps [simp]:
  "startsWithWs [] = False" "startsWithWs (c # cs) = isWhiteSpace c"
  by (simp_all add: startsWithWs_def)

lemma startsWithWs_dropWhile [simp]: "\<not> startsWithWs (dropWhile isWhiteSpace cs)"
  by (induction cs) auto

lemma dropWhile_noWs: "\<not> startsWithWs cs \<Longrightarrow> dropWhile isWhiteSpace cs = cs"
  by (cases cs) auto

lemma space_isWhiteSpace [simp]: "isWhiteSpace (CHR '' '')"
  by (simp add: isWhiteSpace_def)

lemma collapseWhitespace_head:
  "startsWith x (collapseWhitespace s) \<Longrightarrow> \<not> isWhiteSpace x \<Longrightarrow> startsWith x s"
  by (cases s) (auto split: if_splits)

lemma collapseWhitespace_headWs: "startsWithWs (collapseWhitespace s) = startsWithWs s"
  by (cases s) auto

lemma collapseWhitespace_wsNormal: "wsNormal (collapseWhitespace s)"
  by (induction s rule: collapseWhitespace.induct) (auto simp: collapseWhitespace_headWs)

lemma collapseWhitespace_fix: "wsNormal s \<Longrightarrow> collapseWhitespace s = s"
  by (induction s rule: collapseWhitespace.induct) (auto simp: dropWhile_noWs)

lemma collapseWhitespace_noHash:
  "CHR ''#'' \<notin> set s \<Longrightarrow> CHR ''#'' \<notin> set (collapseWhitespace s)"
proof (induction s rule: collapseWhitespace.induct)
  case (1 c cs)
  have "set (dropWhile isWhiteSpace cs) \<subseteq> set cs" by (auto dest: set_dropWhileD)
  with 1 show ?case by auto
qed auto

lemma collapseWhitespace_hasClose: "hasClose (collapseWhitespace s) \<Longrightarrow> hasClose s"
proof (induction s rule: collapseWhitespace.induct)
  case (1 c cs)
  show ?case
  proof (cases "isWhiteSpace c")
    case True
    with 1 have "hasClose (dropWhile isWhiteSpace cs)" by simp
    then have "hasClose cs" using hasClose_suffix suffix_dropWhile by blast
    then show ?thesis by simp
  next
    case False
    with 1 collapseWhitespace_head [of "CHR ''/''" cs] show ?thesis
      by auto
  qed
qed auto

lemma collapseWhitespace_noSlashSlash:
  "noSlashSlash s \<Longrightarrow> noSlashSlash (collapseWhitespace s)"
proof (induction s rule: collapseWhitespace.induct)
  case (1 c cs)
  show ?case
  proof (cases "isWhiteSpace c")
    case True
    from "1.prems" have "noSlashSlash (dropWhile isWhiteSpace cs)"
      using noSlashSlash_suffix [OF suffix_dropWhile, of cs] by simp
    with True 1 show ?thesis by simp
  next
    case False
    with 1 collapseWhitespace_head [of "CHR ''/''" cs] show ?thesis
      by auto
  qed
qed auto

lemma collapseWhitespace_hasBlock: "hasBlock (collapseWhitespace s) \<Longrightarrow> hasBlock s"
proof (induction s rule: collapseWhitespace.induct)
  case (1 c cs)
  show ?case
  proof (cases "isWhiteSpace c")
    case True
    with 1 have "hasBlock (dropWhile isWhiteSpace cs)" by auto
    then have "hasBlock cs" using hasBlock_suffix suffix_dropWhile by blast
    then show ?thesis by simp
  next
    case False
    note keep = False
    show ?thesis
    proof (cases "hasBlock (collapseWhitespace cs)")
      case True
      with keep 1 show ?thesis by simp
    next
      case False
      with keep "1.prems" have c: "c = CHR ''/''"
        and st: "startsWith (CHR ''*'') (collapseWhitespace cs)"
        and cl: "hasClose (tl (collapseWhitespace cs))" by auto
      from st have "startsWith (CHR ''*'') cs"
        by (rule collapseWhitespace_head) simp
      then obtain cs' where cs: "cs = CHR ''*'' # cs'" by (cases cs) auto
      with cl have "hasClose (collapseWhitespace cs')" by simp
      then have "hasClose cs'" by (rule collapseWhitespace_hasClose)
      with c cs show ?thesis by simp
    qed
  qed
qed auto



text \<open>Lower case.\<close>

lemma lowerChar_code:
  "(of_char (lowerChar c) :: nat) =
     (if (65 \<le> (of_char c :: nat) \<and> (of_char c :: nat) \<le> 90) \<or>
         (192 \<le> (of_char c :: nat) \<and> (of_char c :: nat) \<le> 222 \<and> (of_char c :: nat) \<noteq> 215)
      then of_char c + 32 else of_char c)"
  by (simp add: lowerChar_def Let_def)

lemma char_eq_code: "(c = d) = ((of_char c :: nat) = of_char d)"
  by simp

lemma lowerChar_idem: "lowerChar (lowerChar c) = lowerChar c"
  by (subst char_eq_code) (simp add: lowerChar_code)

lemma lowerChar_special:
  "(lowerChar c = CHR ''/'') = (c = CHR ''/'')"
  "(lowerChar c = CHR ''*'') = (c = CHR ''*'')"
  "(lowerChar c = CHR ''#'') = (c = CHR ''#'')"
  "(lowerChar c = CHR '' '') = (c = CHR '' '')"
  by (simp_all add: char_eq_code [of _ "CHR ''/''"] char_eq_code [of _ "CHR ''*''"]
      char_eq_code [of _ "CHR ''#''"] char_eq_code [of _ "CHR '' ''"] lowerChar_code)

lemma lowerChar_ws: "isWhiteSpace (lowerChar c) = isWhiteSpace c"
  unfolding isWhiteSpace_def
  by (simp add: char_eq_code [of _ "CHR 0x09"] char_eq_code [of _ "CHR 0x0A"]
      char_eq_code [of _ "CHR 0x0B"] char_eq_code [of _ "CHR 0x0C"] char_eq_code [of _ "CHR 0x0D"]
      char_eq_code [of _ "CHR 0x20"] char_eq_code [of _ "CHR 0xA0"] lowerChar_code)

lemma toLowerCase_startsWith:
  "startsWith (CHR ''/'') (toLowerCase s) = startsWith (CHR ''/'') s"
  "startsWith (CHR ''*'') (toLowerCase s) = startsWith (CHR ''*'') s"
  by (cases s; simp add: toLowerCase_def lowerChar_special)+

lemma toLowerCase_Cons: "toLowerCase (c # cs) = lowerChar c # toLowerCase cs"
  by (simp add: toLowerCase_def)

lemma toLowerCase_Nil: "toLowerCase [] = []"
  by (simp add: toLowerCase_def)

lemma toLowerCase_tl: "tl (toLowerCase s) = toLowerCase (tl s)"
  by (simp add: toLowerCase_def map_tl)

lemma toLowerCase_noSlashSlash: "noSlashSlash (toLowerCase s) = noSlashSlash s"
  by (induction s)
    (simp_all add: toLowerCase_Cons toLowerCase_Nil toLowerCase_startsWith lowerChar_special)

lemma toLowerCase_hasClose: "hasClose (toLowerCase s) = hasClose s"
  by (induction s)
    (simp_all add: toLowerCase_Cons toLowerCase_Nil toLowerCase_startsWith lowerChar_special)

lemma toLowerCase_hasBlock: "hasBlock (toLowerCase s) = hasBlock s"
  by (induction s)
    (simp_all add: toLowerCase_Cons toLowerCase_Nil toLowerCase_startsWith lowerChar_special
      toLowerCase_tl toLowerCase_hasClose)

lemma toLowerCase_noHash: "(CHR ''#'' \<in> set (toLowerCase s)) = (CHR ''#'' \<in> set s)"
proof -
  have "(CHR ''#'' \<in> set (toLowerCase s)) = (\<exists>c\<in>set s. lowerChar c = CHR ''#'')"
    by (force simp add: toLowerCase_def image_iff)
  then show ?thesis by (simp add: lowerChar_special)
qed

lemma toLowerCase_startsWithWs: "startsWithWs (toLowerCase s) = startsWithWs s"
  by (cases s) (simp_all add: toLowerCase_def lowerChar_ws)

lemma toLowerCase_wsNormal: "wsNormal (toLowerCase s) = wsNormal s"
  by (induction s)
    (simp_all add: toLowerCase_Cons toLowerCase_Nil toLowerCase_startsWithWs lowerChar_special
      lowerChar_ws)

lemma toLowerCase_fixed: "c \<in> set (toLowerCase s) \<Longrightarrow> lowerChar c = c"
  by (auto simp add: toLowerCase_def lowerChar_idem)

lemma toLowerCase_fix: "(\<And>c. c \<in> set s \<Longrightarrow> lowerChar c = c) \<Longrightarrow> toLowerCase s = s"
  by (induction s) (simp_all add: toLowerCase_def)

text \<open>Trimming.\<close>

lemma trim_decomp: "\<exists>us vs. s = us @ trim s @ vs"
proof -
  let ?t = "dropWhile isWhiteSpace s"
  have "s = takeWhile isWhiteSpace s @ ?t" by simp
  moreover have "rev ?t = takeWhile isWhiteSpace (rev ?t) @ dropWhile isWhiteSpace (rev ?t)"
    by simp
  then have "?t = trim s @ rev (takeWhile isWhiteSpace (rev ?t))"
    unfolding trim_def by (metis rev_append rev_rev_ident)
  ultimately have "s = takeWhile isWhiteSpace s @ trim s @ rev (takeWhile isWhiteSpace (rev ?t))"
    by simp
  then show ?thesis by blast
qed

lemma startsWith_append: "startsWith x xs \<Longrightarrow> startsWith x (xs @ ys)"
  by (cases xs) auto

lemma startsWithWs_append: "startsWithWs xs \<Longrightarrow> startsWithWs (xs @ ys)"
  by (cases xs) auto

lemma noSlashSlash_prefix: "noSlashSlash (xs @ ys) \<Longrightarrow> noSlashSlash xs"
  by (induction xs) (auto dest: startsWith_append)

lemma hasClose_prefix: "hasClose xs \<Longrightarrow> hasClose (xs @ ys)"
  by (induction xs) (auto dest: startsWith_append)

lemma hasBlock_prefix: "hasBlock xs \<Longrightarrow> hasBlock (xs @ ys)"
proof (induction xs)
  case (Cons x xs)
  show ?case
  proof (cases "hasBlock xs")
    case True
    with Cons show ?thesis by simp
  next
    case False
    with Cons.prems have x: "x = CHR ''/''" and st: "startsWith (CHR ''*'') xs"
      and cl: "hasClose (tl xs)" by auto
    from st obtain xs' where xs: "xs = CHR ''*'' # xs'" by (cases xs) auto
    with cl have "hasClose (xs' @ ys)" by (simp add: hasClose_prefix)
    with x xs show ?thesis by simp
  qed
qed simp

lemma wsNormal_prefix: "wsNormal (xs @ ys) \<Longrightarrow> wsNormal xs"
  by (induction xs) (auto dest: startsWithWs_append)

lemma wsNormal_suffix: "wsNormal (xs @ ys) \<Longrightarrow> wsNormal ys"
  by (induction xs) auto

lemma trim_noSlashSlash: "noSlashSlash s \<Longrightarrow> noSlashSlash (trim s)"
proof -
  assume a: "noSlashSlash s"
  obtain us vs where s: "s = us @ trim s @ vs" using trim_decomp by blast
  have "suffix (trim s @ vs) s" by (subst (2) s) (simp add: suffix_def)
  then have "noSlashSlash (trim s @ vs)" using a by (rule noSlashSlash_suffix)
  then show ?thesis by (rule noSlashSlash_prefix)
qed

lemma trim_hasBlock: "hasBlock (trim s) \<Longrightarrow> hasBlock s"
proof -
  assume a: "hasBlock (trim s)"
  obtain us vs where s: "s = us @ trim s @ vs" using trim_decomp by blast
  from a have "hasBlock (trim s @ vs)" by (rule hasBlock_prefix)
  moreover have "suffix (trim s @ vs) s" by (subst (2) s) (simp add: suffix_def)
  ultimately show ?thesis using hasBlock_suffix by blast
qed

lemma trim_set: "set (trim s) \<subseteq> set s"
  by (auto simp add: trim_def dest!: set_dropWhileD)

lemma trim_wsNormal: "wsNormal s \<Longrightarrow> wsNormal (trim s)"
proof -
  assume a: "wsNormal s"
  obtain us vs where s: "s = us @ trim s @ vs" using trim_decomp by blast
  from a have "wsNormal (us @ (trim s @ vs))" using s by simp
  then have "wsNormal (trim s @ vs)" by (rule wsNormal_suffix)
  then show ?thesis by (rule wsNormal_prefix)
qed

lemma dropWhile_rev_prefix:
  assumes "t \<noteq> []" "\<not> isWhiteSpace (hd t)"
  shows "dropWhile isWhiteSpace (rev (dropWhile isWhiteSpace (rev t))) =
         rev (dropWhile isWhiteSpace (rev t))"
proof -
  let ?u = "rev (dropWhile isWhiteSpace (rev t))"
  have "rev t = takeWhile isWhiteSpace (rev t) @ dropWhile isWhiteSpace (rev t)" by simp
  then have t: "t = ?u @ rev (takeWhile isWhiteSpace (rev t))"
    by (metis rev_append rev_rev_ident)
  show ?thesis
  proof (cases ?u)
    case Nil
    show ?thesis by (simp only: Nil dropWhile.simps)
  next
    case (Cons x xs)
    with t have "hd t = x" by (metis append_Cons list.sel(1))
    with assms have "\<not> isWhiteSpace x" by simp
    then show ?thesis by (simp only: Cons dropWhile.simps if_False)
  qed
qed

lemma trim_idem: "trim (trim s) = trim s"
proof (cases "dropWhile isWhiteSpace s = []")
  case True
  have t: "trim s = []" by (simp only: trim_def True) simp
  show ?thesis unfolding t by (simp add: trim_def)
next
  case False
  then have "\<not> isWhiteSpace (hd (dropWhile isWhiteSpace s))"
    by (rule hd_dropWhile)
  with False have a: "dropWhile isWhiteSpace (trim s) = trim s"
    unfolding trim_def by (rule dropWhile_rev_prefix)
  have b: "rev (trim s) = dropWhile isWhiteSpace (rev (dropWhile isWhiteSpace s))"
    by (simp add: trim_def)
  have "trim (trim s) = rev (dropWhile isWhiteSpace (rev (dropWhile isWhiteSpace (trim s))))"
    by (rule trim_def)
  also have "\<dots> = rev (dropWhile isWhiteSpace (rev (trim s)))"
    by (simp only: a)
  also have "\<dots> = rev (dropWhile isWhiteSpace (rev (dropWhile isWhiteSpace s)))"
    by (simp only: b dropWhile_idem)
  also have "\<dots> = trim s"
    by (simp only: trim_def)
  finally show ?thesis .
qed

text \<open>A second pass of \<open>normalise\<close> changes nothing.\<close>

lemma normalise_idem: "normalise (normalise s) = normalise s"
proof -
  let ?s1 = "stripLineComments s"
  let ?s2 = "stripBlockComments ?s1"
  let ?s3 = "stripHashComments ?s2"
  let ?s4 = "collapseWhitespace ?s3"
  let ?s5 = "toLowerCase ?s4"
  let ?n = "trim ?s5"
  have n: "normalise s = ?n" by (simp add: normalise_def)
  have ss1: "noSlashSlash ?s1" by (rule stripLineComments_noSlashSlash)
  then have ss2: "noSlashSlash ?s2" by (rule stripBlockComments_noSlashSlash)
  then have ss3: "noSlashSlash ?s3" by (rule stripHashComments_noSlashSlash)
  then have ss4: "noSlashSlash ?s4" by (rule collapseWhitespace_noSlashSlash)
  then have ss5: "noSlashSlash ?s5" by (simp add: toLowerCase_noSlashSlash)
  then have ss: "noSlashSlash ?n" by (rule trim_noSlashSlash)
  have "\<not> hasBlock ?s2" using ss1 by (rule stripBlockComments_noBlock)
  then have "\<not> hasBlock ?s3" using stripHashComments_hasBlock by blast
  then have "\<not> hasBlock ?s4" using collapseWhitespace_hasBlock by blast
  then have "\<not> hasBlock ?s5" by (simp add: toLowerCase_hasBlock)
  then have nb: "\<not> hasBlock ?n" using trim_hasBlock by blast
  have "CHR ''#'' \<notin> set ?s3" by (rule stripHashComments_noHash)
  then have "CHR ''#'' \<notin> set ?s4" by (rule collapseWhitespace_noHash)
  then have "CHR ''#'' \<notin> set ?s5" by (simp add: toLowerCase_noHash)
  then have nh: "CHR ''#'' \<notin> set ?n" using trim_set by blast
  have "wsNormal ?s4" by (rule collapseWhitespace_wsNormal)
  then have "wsNormal ?s5" by (simp add: toLowerCase_wsNormal)
  then have ws: "wsNormal ?n" by (rule trim_wsNormal)
  have lw: "\<And>c. c \<in> set ?n \<Longrightarrow> lowerChar c = c"
    using trim_set toLowerCase_fixed by blast
  have "normalise ?n = trim (toLowerCase (collapseWhitespace (stripHashComments
       (stripBlockComments (stripLineComments ?n)))))"
    by (simp only: normalise_def)
  also have "stripLineComments ?n = ?n" using ss by (rule stripLineComments_fix)
  also have "stripBlockComments ?n = ?n" using nb by (rule stripBlockComments_fix)
  also have "stripHashComments ?n = ?n" using nh by (rule stripHashComments_fix)
  also have "collapseWhitespace ?n = ?n" using ws by (rule collapseWhitespace_fix)
  also have "toLowerCase ?n = ?n" using lw by (rule toLowerCase_fix)
  also have "trim ?n = ?n" by (rule trim_idem)
  finally show ?thesis by (simp only: n)
qed


text \<open>
  C9. Normalising twice is normalising once, and the fingerprint of a text is the fingerprint
  of its normalisation: same digest, same fingerprint set, same normalised length.
\<close>

theorem normalise_roundtrip:
  "normalise (normalise s) = normalise s \<and>
   fingerprint sha256 s k w = fingerprint sha256 (normalise s) k w"
  by (simp add: fingerprint_def normalise_idem)

subsection \<open>Fingerprint sets are not empty\<close>

lemma hashStep_nonneg: "0 \<le> hashStep h c"
  by (simp add: hashStep_def Let_def)

lemma simpleHash_nonneg: "0 \<le> simpleHash s"
proof (cases s rule: rev_cases)
  case Nil
  then show ?thesis by (simp add: simpleHash_def)
next
  case (snoc ys y)
  then show ?thesis by (simp add: simpleHash_def hashStep_nonneg)
qed

lemma kgramHashes_nonempty: "kgramHashes t k \<noteq> []"
  by (simp add: kgramHashes_def)

lemma kgramHashes_nonneg: "h \<in> set (kgramHashes t k) \<Longrightarrow> 0 \<le> h"
  by (auto simp add: kgramHashes_def simpleHash_nonneg split: if_splits)

lemma foldl_min_in: "foldl (\<lambda>minVal y. if y < minVal then y else minVal) x xs \<in> insert x (set xs)"
  by (induction xs arbitrary: x) (auto split: if_splits)

lemma windowMin_in: "xs \<noteq> [] \<Longrightarrow> windowMin xs \<in> set xs"
  using foldl_min_in by (cases xs) auto

lemma setAdd_nonempty: "setAdd x s \<noteq> []"
  by (auto simp add: setAdd_def)

lemma winnowStep_keeps: "fst st \<noteq> [] \<Longrightarrow> fst (winnowStep hashes w st i) \<noteq> []"
  by (simp add: winnowStep_def Let_def setAdd_nonempty)

lemma winnow_fold_keeps: "fst st \<noteq> [] \<Longrightarrow> fst (foldl (winnowStep hashes w) st is) \<noteq> []"
  by (induction "is" arbitrary: st) (simp_all add: winnowStep_keeps)

lemma winnow_nonempty:
  assumes "hashes \<noteq> []" "0 < w" "\<And>h. h \<in> set hashes \<Longrightarrow> 0 \<le> h"
  shows "winnow hashes w \<noteq> []"
proof (cases "length hashes \<le> w")
  case True
  with assms(1) show ?thesis by (simp add: winnow_def setAdd_nonempty)
next
  case False
  have window: "take w hashes \<noteq> []" using assms(1,2) by simp
  then have "windowMin (take w hashes) \<in> set (take w hashes)" by (rule windowMin_in)
  then have "windowMin (take w hashes) \<in> set hashes" by (rule in_set_takeD)
  then have "windowMin (take w hashes) \<noteq> - 1" using assms(3) by fastforce
  then have first: "fst (winnowStep hashes w ([], - 1) 0) \<noteq> []"
    by (simp add: winnowStep_def Let_def setAdd_nonempty)
  have "[0..<length hashes - w + 1] = 0 # [1..<length hashes - w + 1]"
    by (simp add: upt_conv_Cons)
  then have "winnow hashes w =
      fst (foldl (winnowStep hashes w) (winnowStep hashes w ([], - 1) 0) [1..<length hashes - w + 1])"
    using False assms(1) by (simp add: winnow_def)
  with first show ?thesis by (simp add: winnow_fold_keeps)
qed

lemma fingerprint_nonempty_general: "0 < w \<Longrightarrow> fingerprints (fingerprint sha256 s k w) \<noteq> []"
  by (simp add: fingerprint_def Let_def winnow_nonempty kgramHashes_nonempty kgramHashes_nonneg)

text \<open>
  C10. With a window of at least one hash (the default is 4), the fingerprint set of every
  text has an element; two texts whose normalisations are empty compare with similarity 1 and
  identical content.
\<close>

theorem fingerprint_never_empty:
  "(0 < w \<longrightarrow> fingerprints (fingerprint sha256 s k w) \<noteq> []) \<and>
   fingerprints (fingerprint sha256 s DEFAULT_K DEFAULT_W) \<noteq> [] \<and>
   (normalise s1 = [] \<and> normalise s2 = [] \<longrightarrow>
      cmp_similarity (compareCode sha256 s1 s2) = 1 \<and>
      cmp_identicalContent (compareCode sha256 s1 s2))"
proof (intro conjI impI)
  assume "0 < w"
  then show "fingerprints (fingerprint sha256 s k w) \<noteq> []"
    by (rule fingerprint_nonempty_general)
next
  show "fingerprints (fingerprint sha256 s DEFAULT_K DEFAULT_W) \<noteq> []"
    by (rule fingerprint_nonempty_general) (simp add: DEFAULT_W_def)
next
  assume "normalise s1 = [] \<and> normalise s2 = []"
  then have "fp_hash (fingerprint sha256 s1 DEFAULT_K DEFAULT_W) =
             fp_hash (fingerprint sha256 s2 DEFAULT_K DEFAULT_W)"
    by (simp add: fingerprint_def Let_def)
  then show "cmp_similarity (compareCode sha256 s1 s2) = 1"
    and "cmp_identicalContent (compareCode sha256 s1 s2)"
    by (simp_all add: compareCode_def Let_def)
qed

lemma normalise_comment_examples:
  "normalise ''// only a note'' = []" "normalise '' /* a */  '' = []"
  by code_simp+

theorem fingerprint_never_empty_witness:
  "0 < (4::nat) \<and> fingerprints (fingerprint (\<lambda>t. t) [] 25 4) \<noteq> [] \<and>
   normalise ''// only a note'' = [] \<and> normalise '' /* a */  '' = [] \<and>
   cmp_similarity (compareCode (\<lambda>t. t) ''// only a note'' '' /* a */  '') = 1 \<and>
   cmp_identicalContent (compareCode (\<lambda>t. t) ''// only a note'' '' /* a */  '')"
  using fingerprint_never_empty [of 4 "\<lambda>t. t" "[]" 25 "''// only a note''" "'' /* a */  ''"]
  by (simp add: normalise_comment_examples)


subsection \<open>Extensions in the cross-repository scan\<close>

lemma jaccardSimilarity_self: "jaccardSimilarity a a = 1"
  by (simp add: jaccardSimilarity_def Let_def ddiv_def)

lemma lower_examples: "toLowerCase ''JS'' = ''js''" "toLowerCase ''js'' = ''js''"
  by code_simp+

lemma splitPop_examples:
  "splitPop ''A.JS'' = ''JS''" "splitPop ''b.js'' = ''js''" "splitPop ''a.js'' = ''js''"
  by (simp_all add: splitPop_def)

lemma keep_upper_and_lower:
  "keepTreeItem \<lparr>t_type = ''blob'', t_size = 32, t_path = ''A.JS''\<rparr>"
  "keepTreeItem \<lparr>t_type = ''blob'', t_size = 32, t_path = ''b.js''\<rparr>"
  by (simp_all add: keepTreeItem_def Let_def splitPop_examples lower_examples codeExtensions_def)

lemma two_repo_scan:
  "crossCompareRepos sha256 [oneFileRepo ra pa, oneFileRepo rb pb] t =
     (if ra = rb then []
      else compareFiles t ra rb
             (pa, fingerprint sha256 sumSource DEFAULT_K DEFAULT_W)
             (pb, fingerprint sha256 sumSource DEFAULT_K DEFAULT_W))"
proof -
  have two: "[0..<2] = [0, 1]" "[1..<2] = [1]" "[2..<2] = []"
    by (simp_all add: upt_conv_Cons)
  have one: "[0..<1] = [0]" "[1..<1] = []"
    by (simp_all add: upt_conv_Cons)
  have key: "sort_key k (if c then [x] else []) = (if c then [x] else [])" for k :: "flag \<Rightarrow> real" and c x
    by simp
  show ?thesis
    by (cases "ra = rb")
      (simp_all add: crossCompareRepos_def buildIndex_def buildFpMap_def oneFileRepo_def
        compareRepoPair_def Let_def two one compareFiles_def)
qed

text \<open>
  C6. Both paths pass the file filter, whose extension test is on the lowercased extension,
  and their lowercased extensions are equal; yet the scan, which compares the extensions as
  they are, does not compare \<open>A.JS\<close> with \<open>b.js\<close>, while it flags the same content under
  \<open>a.js\<close> and \<open>b.js\<close>.
\<close>

theorem extension_case_not_folded:
  "keepTreeItem \<lparr>t_type = ''blob'', t_size = 32, t_path = ''A.JS''\<rparr> \<and>
   keepTreeItem \<lparr>t_type = ''blob'', t_size = 32, t_path = ''b.js''\<rparr> \<and>
   toLowerCase (splitPop ''A.JS'') = toLowerCase (splitPop ''b.js'') \<and>
   crossCompareRepos sha256 [oneFileRepo ''alice/sol'' ''A.JS'', oneFileRepo ''bob/sol'' ''b.js''] 0.8
     = [] \<and>
   length (crossCompareRepos sha256
     [oneFileRepo ''alice/sol'' ''a.js'', oneFileRepo ''bob/sol'' ''b.js''] 0.8) = 1"
proof (intro conjI)
  show "keepTreeItem \<lparr>t_type = ''blob'', t_size = 32, t_path = ''A.JS''\<rparr>"
    and "keepTreeItem \<lparr>t_type = ''blob'', t_size = 32, t_path = ''b.js''\<rparr>"
    by (rule keep_upper_and_lower)+
  show "toLowerCase (splitPop ''A.JS'') = toLowerCase (splitPop ''b.js'')"
    by (simp only: splitPop_examples lower_examples)
  show "crossCompareRepos sha256
      [oneFileRepo ''alice/sol'' ''A.JS'', oneFileRepo ''bob/sol'' ''b.js''] 0.8 = []"
    by (simp add: two_repo_scan compareFiles_def splitPop_examples Let_def)
  show "length (crossCompareRepos sha256
      [oneFileRepo ''alice/sol'' ''a.js'', oneFileRepo ''bob/sol'' ''b.js''] 0.8) = 1"
    by (simp add: two_repo_scan compareFiles_def splitPop_examples Let_def jaccardSimilarity_self)
qed

subsection \<open>Highest similarity\<close>

lemma carriesOver_refl: "carriesOver st st"
  by (simp add: carriesOver_def)

lemma carriesOver_trans: "carriesOver st st' \<Longrightarrow> carriesOver st' st'' \<Longrightarrow> carriesOver st st''"
  unfolding carriesOver_def by (meson order_trans)

lemma carriesOver_foldl:
  assumes "\<And>s x. carriesOver s (f s x)"
  shows "carriesOver st (foldl f st xs)"
proof (induction xs arbitrary: st)
  case Nil
  show ?case by (simp add: carriesOver_refl)
next
  case (Cons x xs)
  have "carriesOver st (f st x)" by (rule assms)
  moreover have "carriesOver (f st x) (foldl f (f st x) xs)" by (rule Cons.IH)
  ultimately show ?case using carriesOver_trans by simp
qed

lemma push_invariant:
  assumes "similarityInvariant a"
  shows "similarityInvariant
           (a\<lparr>similarityMatches := similarityMatches a @ [m],
              highestSimilarity := max (highestSimilarity a) (sm_similarity m)\<rparr>)"
proof -
  let ?S = "insert 0 (sm_similarity ` set (similarityMatches a))"
  have fin: "finite ?S" and ne: "?S \<noteq> {}" by simp_all
  have "insert 0 (sm_similarity ` set (similarityMatches a @ [m])) = insert (sm_similarity m) ?S"
    by auto
  then have "Max (insert 0 (sm_similarity ` set (similarityMatches a @ [m])))
             = max (sm_similarity m) (Max ?S)"
    using Max_insert [OF fin ne] by simp
  with assms show ?thesis
    by (simp add: similarityInvariant_def max.commute)
qed

lemma pushMatchAndMax_carriesOver:
  "sm_similarity m = s \<Longrightarrow> carriesOver st (pushMatchAndMax st pid m s)"
proof (cases "st pid")
  case None
  then show ?thesis by (simp add: pushMatchAndMax_def carriesOver_refl)
next
  case (Some a)
  assume "sm_similarity m = s"
  with Some show ?thesis
    unfolding carriesOver_def pushMatchAndMax_def
    using push_invariant [of a m] by auto
qed

lemma push_twice_carriesOver:
  "sm_similarity m1 = s \<Longrightarrow> sm_similarity m2 = s \<Longrightarrow>
   carriesOver st (pushMatchAndMax (pushMatchAndMax st p1 m1 s) p2 m2 s)"
  using pushMatchAndMax_carriesOver carriesOver_trans by blast

lemma recalculateSuspicion_fields:
  "similarityMatches (recalculateSuspicion a) = similarityMatches a"
  "highestSimilarity (recalculateSuspicion a) = highestSimilarity a"
  by (simp_all add: recalculateSuspicion_def Let_def)

lemma recalcAndSave_carriesOver: "carriesOver st (recalcAndSave st pid)"
proof (cases "st pid")
  case None
  then show ?thesis by (simp add: recalcAndSave_def carriesOver_refl)
next
  case (Some a)
  then show ?thesis
    unfolding carriesOver_def recalcAndSave_def
    by (auto simp add: similarityInvariant_def recalculateSuspicion_fields)
qed

lemma persistFlag_carriesOver: "carriesOver st (persistFlag r2p st fl)"
  unfolding persistFlag_def Let_def
  by (auto split: option.splits simp add: carriesOver_refl intro!: push_twice_carriesOver)

lemma persistMatch_carriesOver: "carriesOver st (persistMatch repo1 repo2 st m)"
  unfolding persistMatch_def Let_def
  by (rule push_twice_carriesOver) simp_all

lemma runCrossComparison_carriesOver:
  "carriesOver st (runCrossComparison_persist r2p st flags)"
  unfolding runCrossComparison_persist_def Let_def
  using carriesOver_foldl [of "persistFlag r2p", OF persistFlag_carriesOver]
    carriesOver_foldl [of recalcAndSave, OF recalcAndSave_carriesOver]
    carriesOver_trans by blast

lemma compareRepositories_carriesOver:
  "carriesOver st (compareRepositories_persist repo1 repo2 st matches)"
  unfolding compareRepositories_persist_def Let_def
  using carriesOver_foldl [of "persistMatch repo1 repo2", OF persistMatch_carriesOver]
    carriesOver_foldl [of recalcAndSave, OF recalcAndSave_carriesOver]
    carriesOver_trans by blast

text \<open>
  C8. A new analysis document satisfies \<open>highestSimilarity = max (similarities \<union> {0})\<close>; if
  every document of the collection satisfies it, then after the match-persisting part of
  \<open>runCrossComparison\<close> and of \<open>compareRepositories\<close> every document still does, and no
  document's \<open>highestSimilarity\<close> has decreased.
\<close>

theorem highest_similarity_invariant:
  "(\<forall>pid a. st pid = Some a \<longrightarrow> similarityInvariant a) \<Longrightarrow>
   similarityInvariant (newAnalysis p owner rname) \<and>
   (\<forall>pid a'. runCrossComparison_persist r2p st flags pid = Some a' \<longrightarrow>
      similarityInvariant a' \<and>
      (\<exists>a. st pid = Some a \<and> highestSimilarity a \<le> highestSimilarity a')) \<and>
   (\<forall>pid a'. compareRepositories_persist repo1 repo2 st matches pid = Some a' \<longrightarrow>
      similarityInvariant a' \<and>
      (\<exists>a. st pid = Some a \<and> highestSimilarity a \<le> highestSimilarity a'))"
proof -
  assume inv: "\<forall>pid a. st pid = Some a \<longrightarrow> similarityInvariant a"
  have new: "similarityInvariant (newAnalysis p owner rname)"
    by (simp add: similarityInvariant_def newAnalysis_def)
  have step: "carriesOver st st' \<Longrightarrow>
      \<forall>pid a'. st' pid = Some a' \<longrightarrow> similarityInvariant a' \<and>
        (\<exists>a. st pid = Some a \<and> highestSimilarity a \<le> highestSimilarity a')" for st'
    using inv unfolding carriesOver_def by blast
  from new step [OF runCrossComparison_carriesOver] step [OF compareRepositories_carriesOver]
  show ?thesis by blast
qed

theorem highest_similarity_invariant_witness:
  "similarityInvariant (newAnalysis ''p1'' ''alice'' ''sol'') \<and>
   (\<exists>a'. runCrossComparison_persist exampleRepoToParticipant exampleStore [exampleFlag] ''p1''
           = Some a' \<and> similarityInvariant a' \<and> highestSimilarity a' = 0.9)"
proof -
  have inv: "\<forall>pid a. exampleStore pid = Some a \<longrightarrow> similarityInvariant a"
    by (auto simp add: exampleStore_def similarityInvariant_def newAnalysis_def split: if_splits)
  have run: "\<exists>a'. runCrossComparison_persist exampleRepoToParticipant exampleStore [exampleFlag] ''p1''
           = Some a' \<and> highestSimilarity a' = 0.9"
    by (simp add: runCrossComparison_persist_def persistFlag_def affectedOf_def
        exampleRepoToParticipant_def exampleStore_def exampleFlag_def pushMatchAndMax_def
        recalcAndSave_def setAdd_def newAnalysis_def recalculateSuspicion_fields Let_def)
  from highest_similarity_invariant [OF inv, of "''p1''" "''alice''" "''sol''"
      exampleRepoToParticipant "[exampleFlag]"] inv run
  show ?thesis by blast
qed


end
